theory Spec2Isabelle
  imports Complex_Main "HOL-Library.AList"
begin

section \<open>Strings and numbers of the host language\<close>

text \<open>
  A string of the program is modelled by the list of the bytes of its UTF-8 text
  (\<^typ>\<open>string\<close>). All string constants of the program are ASCII apart from the letter
  mu of the unit \<open>\<mu>s\<close> (U+03BC), which is the two bytes \<open>0xCE 0xBC\<close>. UTF-8 is
  self-synchronising, so containment of one well-formed text in another is containment
  of the byte lists, and the ASCII characters the program inspects (\<open><\<close>, \<open>>\<close>,
  digits, signs) never occur inside a multi-byte character.
\<close>

definition micro :: string where
  \<comment> \<open>The letter mu (U+03BC) with which the program writes the unit of microseconds.\<close>
  "micro = [CHR 0xCE, CHR 0xBC]"

fun startsWith :: "string \<Rightarrow> string \<Rightarrow> bool" where
  \<comment> \<open>\<open>startsWith s p\<close>: the text \<open>s\<close> begins with \<open>p\<close>.\<close>
  "startsWith s [] = True"
| "startsWith [] (p # ps) = False"
| "startsWith (c # cs) (p # ps) = (c = p \<and> startsWith cs ps)"

fun includes_str :: "string \<Rightarrow> string \<Rightarrow> bool" where
  \<comment> \<open>\<open>s.includes(p)\<close>: \<open>p\<close> occurs in \<open>s\<close> as a contiguous substring.\<close>
  "includes_str [] p = (p = [])"
| "includes_str (c # cs) p = (startsWith (c # cs) p \<or> includes_str cs p)"

fun replace :: "string \<Rightarrow> string \<Rightarrow> string \<Rightarrow> string" where
  \<comment> \<open>\<open>s.replace(p, r)\<close> for a string pattern \<open>p\<close>: only the first (leftmost)
      occurrence is replaced; without an occurrence the string is returned as it is.\<close>
  "replace [] p r = (if p = [] then r else [])"
| "replace (c # cs) p r =
     (if startsWith (c # cs) p then r @ drop (length p) (c # cs) else c # replace cs p r)"

function strip_tags :: "string \<Rightarrow> string" where
  \<comment> \<open>\<open>s.replace(/<[^>]*>/g, '')\<close>: every match starts at a \<open><\<close> that has a
      \<open>>\<close> somewhere after it and ends at the first such \<open>>\<close>; matches are removed
      from left to right.\<close>
  "strip_tags [] = []"
| "strip_tags (c # cs) =
     (if c = CHR ''<'' \<and> CHR ''>'' \<in> set cs
      then strip_tags (tl (dropWhile (\<lambda>x. x \<noteq> CHR ''>'') cs))
      else c # strip_tags cs)"
  by pat_completeness auto
termination
proof (relation "measure length")
  show "wf (measure length)" by simp
next
  fix c :: char and cs :: string
  have "length (tl (dropWhile (\<lambda>x. x \<noteq> CHR ''>'') cs)) \<le> length cs"
    using length_dropWhile_le [of "\<lambda>x. x \<noteq> CHR ''>''" cs] by simp
  then show "(tl (dropWhile (\<lambda>x. x \<noteq> CHR ''>'') cs), c # cs) \<in> measure length"
    by simp
next
  fix c :: char and cs :: string
  show "(cs, c # cs) \<in> measure length" by simp
qed

text \<open>
  A Number is modelled by the value it denotes: not-a-number, an infinity or a rational.
  Rounding to the nearest binary64 value is not modelled: \<open>parseFloat\<close>, \<open>*\<close> and
  \<open>/\<close> return the exact result, and the two zeros are one. Comparisons are those of
  the program (every comparison with not-a-number is false).
\<close>

datatype jsnum = NaN | PosInf | NegInf | Fin rat

fun isNaN :: "jsnum \<Rightarrow> bool" where
  "isNaN NaN = True"
| "isNaN _ = False"

fun js_times :: "jsnum \<Rightarrow> rat \<Rightarrow> jsnum" where
  \<comment> \<open>\<open>x * k\<close> for a positive finite constant \<open>k\<close>.\<close>
  "js_times NaN k = NaN"
| "js_times PosInf k = PosInf"
| "js_times NegInf k = NegInf"
| "js_times (Fin x) k = Fin (x * k)"

fun js_divide :: "jsnum \<Rightarrow> rat \<Rightarrow> jsnum" where
  \<comment> \<open>\<open>x / k\<close> for a positive finite constant \<open>k\<close>.\<close>
  "js_divide NaN k = NaN"
| "js_divide PosInf k = PosInf"
| "js_divide NegInf k = NegInf"
| "js_divide (Fin x) k = Fin (x / k)"

fun js_ge :: "jsnum \<Rightarrow> rat \<Rightarrow> bool" where
  \<comment> \<open>\<open>x >= k\<close> for a finite constant \<open>k\<close>.\<close>
  "js_ge NaN k = False"
| "js_ge PosInf k = True"
| "js_ge NegInf k = False"
| "js_ge (Fin x) k = (k \<le> x)"

subsection \<open>The host's \<open>parseFloat\<close>\<close>

definition whiteSpace :: "string list" where
  \<comment> \<open>The characters \<open>parseFloat\<close> skips at the start, in UTF-8: the white space and
      line terminator code points of the language, which are U+0009 to U+000D, U+0020,
      U+00A0, U+1680, U+2000 to U+200A, U+2028, U+2029, U+202F, U+205F, U+3000 and
      U+FEFF.\<close>
  "whiteSpace =
     [[CHR 0x09], [CHR 0x0A], [CHR 0x0B], [CHR 0x0C], [CHR 0x0D], [CHR 0x20],
      [CHR 0xC2, CHR 0xA0], [CHR 0xE1, CHR 0x9A, CHR 0x80],
      [CHR 0xE2, CHR 0x80, CHR 0x80], [CHR 0xE2, CHR 0x80, CHR 0x81],
      [CHR 0xE2, CHR 0x80, CHR 0x82], [CHR 0xE2, CHR 0x80, CHR 0x83],
      [CHR 0xE2, CHR 0x80, CHR 0x84], [CHR 0xE2, CHR 0x80, CHR 0x85],
      [CHR 0xE2, CHR 0x80, CHR 0x86], [CHR 0xE2, CHR 0x80, CHR 0x87],
      [CHR 0xE2, CHR 0x80, CHR 0x88], [CHR 0xE2, CHR 0x80, CHR 0x89],
      [CHR 0xE2, CHR 0x80, CHR 0x8A], [CHR 0xE2, CHR 0x80, CHR 0xA8],
      [CHR 0xE2, CHR 0x80, CHR 0xA9], [CHR 0xE2, CHR 0x80, CHR 0xAF],
      [CHR 0xE2, CHR 0x81, CHR 0x9F], [CHR 0xE3, CHR 0x80, CHR 0x80],
      [CHR 0xEF, CHR 0xBB, CHR 0xBF]]"

definition ws_len :: "string \<Rightarrow> nat" where
  \<comment> \<open>Number of bytes of the white space character at the head of the string, 0 if none.\<close>
  "ws_len s = (case find (startsWith s) whiteSpace of Some w \<Rightarrow> length w | None \<Rightarrow> 0)"

fun trimStart :: "string \<Rightarrow> string" where
  \<comment> \<open>The string without its leading white space.\<close>
  "trimStart [] = []"
| "trimStart (c # cs) =
     (case ws_len (c # cs) of 0 \<Rightarrow> c # cs | Suc n \<Rightarrow> trimStart (drop n cs))"

definition is_digit :: "char \<Rightarrow> bool" where
  "is_digit c = (48 \<le> (of_char c :: nat) \<and> (of_char c :: nat) \<le> 57)"

definition digits_val :: "string \<Rightarrow> int" where
  \<comment> \<open>The number a string of decimal digits denotes.\<close>
  "digits_val ds = foldl (\<lambda>a c. 10 * a + (of_char c - 48)) 0 ds"

definition exponentPart :: "string \<Rightarrow> int" where
  \<comment> \<open>The exponent part at the head of the string: \<open>e\<close> or \<open>E\<close>, an optional sign and
      at least one digit; when the head is not of that form there is no exponent.\<close>
  "exponentPart s =
     (case s of
        [] \<Rightarrow> 0
      | c # r \<Rightarrow>
          if c = CHR ''e'' \<or> c = CHR ''E'' then
            (case r of
               [] \<Rightarrow> 0
             | d # r' \<Rightarrow>
                 if d = CHR ''-'' then
                   (if takeWhile is_digit r' = [] then 0
                    else - digits_val (takeWhile is_digit r'))
                 else if d = CHR ''+'' then digits_val (takeWhile is_digit r')
                 else digits_val (takeWhile is_digit r))
          else 0)"

definition unsignedDecimal :: "string \<Rightarrow> rat option" where
  \<comment> \<open>The longest prefix that is digits with an optional fraction, or a fraction alone,
      followed by an optional exponent part; \<open>None\<close> when no prefix is a number.\<close>
  "unsignedDecimal u =
     (let ip = takeWhile is_digit u;
          r1 = dropWhile is_digit u;
          fp = (case r1 of [] \<Rightarrow> [] | c # r \<Rightarrow> if c = CHR ''.'' then takeWhile is_digit r else []);
          r2 = (case r1 of [] \<Rightarrow> []
                | c # r \<Rightarrow> if c = CHR ''.'' \<and> (ip \<noteq> [] \<or> fp \<noteq> [])
                           then dropWhile is_digit r else r1);
          m = Fract (digits_val (ip @ fp)) (10 ^ length fp);
          e = exponentPart r2
      in if ip = [] \<and> fp = [] then None
         else Some (if 0 \<le> e then m * 10 ^ nat e else m / 10 ^ nat (- e)))"

definition parseFloat :: "string \<Rightarrow> jsnum" where
  "parseFloat s =
     (let t = trimStart s;
          neg = startsWith t ''-'';
          u = (if startsWith t ''-'' \<or> startsWith t ''+'' then tl t else t)
      in if startsWith u ''Infinity'' then (if neg then NegInf else PosInf)
         else (case unsignedDecimal u of
                 None \<Rightarrow> NaN
               | Some q \<Rightarrow> Fin (if neg then - q else q)))"

section \<open>The duration classifier\<close>

text \<open>The value \<open>{ text, className }\<close> that \<open>formatDuration\<close> returns.\<close>

record formatted =
  text_str :: string
  className :: string

definition extractTimeInMs :: "string \<Rightarrow> jsnum" where
  "extractTimeInMs durationStr =
     (let timeStr = strip_tags durationStr
      in if includes_str timeStr ''s'' \<and> \<not> includes_str timeStr ''ms''
            \<and> \<not> includes_str timeStr (micro @ ''s'')
         then js_times (parseFloat timeStr) 1000
         else if includes_str timeStr ''ms'' then parseFloat timeStr
         else if includes_str timeStr (micro @ ''s'') then js_divide (parseFloat timeStr) 1000
         else (let num = parseFloat timeStr in if isNaN num then Fin 0 else num))"

definition formatDuration :: "string option \<Rightarrow> formatted" where
  \<comment> \<open>The argument is \<open>string | undefined\<close>; \<open>!durationStr\<close> holds of \<open>undefined\<close>
      and of the empty string.\<close>
  "formatDuration durationStr =
     (case durationStr of
        None \<Rightarrow> \<lparr>text_str = ''0s'', className = ''''\<rparr>
      | Some d \<Rightarrow>
          if d = [] then \<lparr>text_str = ''0s'', className = ''''\<rparr>
          else if includes_str d ''error'' then
            \<lparr>text_str = replace (replace d ''<span class=\"error\">'' '''') ''</span>'' '''',
             className = ''text-red-600 font-bold''\<rparr>
          else if includes_str d ''warn'' then
            \<lparr>text_str = replace (replace d ''<span class=\"warn\">'' '''') ''</span>'' '''',
             className = ''text-amber-500 font-bold''\<rparr>
          else if includes_str d ''orange'' then
            \<lparr>text_str = replace (replace d ''<span class=\"orange\">'' '''') ''</span>'' '''',
             className = ''text-orange-500 font-bold''\<rparr>
          else
            (let timeInMs = extractTimeInMs d
             in if js_ge timeInMs 1000 then \<lparr>text_str = d, className = ''text-red-600 font-bold''\<rparr>
                else if js_ge timeInMs 250 then \<lparr>text_str = d, className = ''text-amber-500 font-bold''\<rparr>
                else if js_ge timeInMs 100 then \<lparr>text_str = d, className = ''text-orange-500 font-bold''\<rparr>
                else \<lparr>text_str = d, className = ''''\<rparr>))"

subsection \<open>The specification's reading of the classifier\<close>

text \<open>
  The specification names four severity tiers, surfaced by the program as style classes,
  and gives the tier of a magnitude by pairwise disjoint intervals. Both are written here
  from the specification's words, to be compared with \<^const>\<open>formatDuration\<close>.
\<close>

datatype severity = SevNone | SevModerate | SevWarning | SevError

fun tier_class :: "severity \<Rightarrow> string" where
  "tier_class SevError = ''text-red-600 font-bold''"
| "tier_class SevWarning = ''text-amber-500 font-bold''"
| "tier_class SevModerate = ''text-orange-500 font-bold''"
| "tier_class SevNone = ''''"

fun js_lt :: "jsnum \<Rightarrow> rat \<Rightarrow> bool" where
  \<comment> \<open>\<open>x < k\<close> for a finite constant \<open>k\<close>.\<close>
  "js_lt NaN k = False"
| "js_lt PosInf k = False"
| "js_lt NegInf k = True"
| "js_lt (Fin x) k = (x < k)"

definition spec_classify :: "jsnum \<Rightarrow> severity" where
  \<comment> \<open>error iff \<open>m \<ge> 1000\<close>, warning iff \<open>250 \<le> m < 1000\<close>, moderate iff
      \<open>100 \<le> m < 250\<close>, else none.\<close>
  "spec_classify m =
     (if js_ge m 1000 then SevError
      else if js_ge m 250 \<and> js_lt m 1000 then SevWarning
      else if js_ge m 100 \<and> js_lt m 250 then SevModerate
      else SevNone)"

definition has_marker :: "string \<Rightarrow> bool" where
  \<comment> \<open>The string carries one of the three severity markers.\<close>
  "has_marker d = (includes_str d ''error'' \<or> includes_str d ''warn'' \<or> includes_str d ''orange'')"

section \<open>Parsed input and its normalisation\<close>

text \<open>
  The values \<open>JSON.parse\<close> returns. An object is the list of its own properties in
  insertion order; reading a property that is not there gives \<open>undefined\<close>, modelled
  by \<open>None\<close>. Assigning to a property replaces its value in place or appends it.
\<close>

datatype json =
    JNull
  | JBool bool
  | JNum jsnum
  | JStr string
  | JArr "json list"
  | JObj "(string \<times> json) list"

datatype js_error = SyntaxError | TypeError

fun truthy :: "json \<Rightarrow> bool" where
  "truthy JNull = False"
| "truthy (JBool b) = b"
| "truthy (JNum NaN) = False"
| "truthy (JNum (Fin x)) = (x \<noteq> 0)"
| "truthy (JNum _) = True"
| "truthy (JStr s) = (s \<noteq> [])"
| "truthy (JArr xs) = True"
| "truthy (JObj ps) = True"

subsection \<open>The host's \<open>toFixed(2)\<close>\<close>

function decimal :: "int \<Rightarrow> string" where
  \<comment> \<open>The decimal digits of a non-negative integer.\<close>
  "decimal n =
     (if n < 10 then [''0123456789'' ! nat n]
      else decimal (n div 10) @ [''0123456789'' ! nat (n mod 10)])"
  by pat_completeness auto
termination
  by (relation "measure nat") auto

declare decimal.simps [simp del]

definition exponential :: "rat \<Rightarrow> string" where
  \<comment> \<open>\<open>Number::toString\<close> of a value of at least \<open>10^21\<close>, which the host prints as
      \<open>d.ddde+n\<close>. A binary64 value of that size is a whole number. The digits printed here
      are all the digits of the exact value without its trailing zeros; the host prints
      the shortest digits that round to the value, which are the same for a number of at
      most 15 significant digits.\<close>
  "exponential a =
     (let ds = decimal \<lfloor>a\<rfloor>;
          sig = rev (dropWhile (\<lambda>c. c = CHR ''0'') (rev ds))
      in hd sig # (if tl sig = [] then [] else CHR ''.'' # tl sig)
           @ ''e+'' @ decimal (int (length ds) - 1))"

definition toFixed2 :: "jsnum \<Rightarrow> string" where
  \<comment> \<open>\<open>x.toFixed(2)\<close>: the integer \<open>n\<close> closest to \<open>100 * |x|\<close> (the larger of
      two), printed with a point before its last two digits, after a minus sign when
      \<open>x < 0\<close>; exponent notation from \<open>10^21\<close> on.\<close>
  "toFixed2 x =
     (case x of
        NaN \<Rightarrow> ''NaN''
      | PosInf \<Rightarrow> ''Infinity''
      | NegInf \<Rightarrow> ''-Infinity''
      | Fin q \<Rightarrow>
          (let s = (if q < 0 then ''-'' else '''');
               a = \<bar>q\<bar>
           in if 10 ^ 21 \<le> a then s @ exponential a
              else
                (let m = decimal \<lfloor>a * 100 + 1 / 2\<rfloor>;
                     m' = (if length m \<le> 2 then replicate (3 - length m) (CHR ''0'') @ m else m)
                 in s @ take (length m' - 2) m' @ ''.'' @ drop (length m' - 2) m')))"

subsection \<open>\<open>processNode\<close>\<close>

lemma size_property:
  "map_of ps k = Some v \<Longrightarrow> size v < size (JObj ps)"
proof -
  assume "map_of ps k = Some v"
  then have "(k, v) \<in> set ps" by (rule map_of_SomeD)
  then have "size v < Suc (size_list (size_prod (\<lambda>_. 0) size) ps)"
    by (induction ps) auto
  then show ?thesis by simp
qed

function processNode :: "json \<Rightarrow> js_error + json"
  and processNodes :: "json list \<Rightarrow> js_error + json list" where
  \<comment> \<open>\<open>processNode(node)\<close> and \<open>nodes.map(processNode)\<close>. The node is changed in place
      and returned. Reading a property of \<open>null\<close> throws; so does, in the strict mode of
      a module, the assignment of \<open>name\<close> to a number, a string or a boolean. An array
      is an object: it is given the property \<open>name\<close>, which the model of an array does not
      record and nothing reads.\<close>
  "processNode (JObj ps) =
     (let ps1 = (case map_of ps ''duration'' of
                   Some (JNum n) \<Rightarrow> AList.update ''duration'' (JStr (toFixed2 n @ ''ms'')) ps
                 | _ \<Rightarrow> ps);
          ps2 = (if (case map_of ps1 ''name'' of Some v \<Rightarrow> truthy v | None \<Rightarrow> False) then ps1
                 else AList.update ''name'' (JStr ''Unnamed Node'') ps1)
      in case map_of ps2 ''children'' of
           Some (JArr cs) \<Rightarrow>
             (case processNodes cs of
                Inl e \<Rightarrow> Inl e
              | Inr cs' \<Rightarrow> Inr (JObj (AList.update ''children'' (JArr cs') ps2)))
         | _ \<Rightarrow> Inr (JObj ps2))"
| "processNode (JArr xs) = Inr (JArr xs)"
| "processNode JNull = Inl TypeError"
| "processNode (JBool b) = Inl TypeError"
| "processNode (JNum n) = Inl TypeError"
| "processNode (JStr s) = Inl TypeError"
| "processNodes [] = Inr []"
| "processNodes (x # xs) =
     (case processNode x of
        Inl e \<Rightarrow> Inl e
      | Inr y \<Rightarrow> (case processNodes xs of Inl e \<Rightarrow> Inl e | Inr ys \<Rightarrow> Inr (y # ys)))"
  by pat_completeness auto
termination
proof (relation "measure (\<lambda>a. case a of Inl n \<Rightarrow> size n | Inr ns \<Rightarrow> size_list size ns)")
  show "wf (measure (\<lambda>a. case a of Inl n \<Rightarrow> size n | Inr ns \<Rightarrow> size_list size ns))"
    by simp
next
  fix ps :: "(string \<times> json) list" and ps1 ps2 x2 cs
  assume p1: "ps1 = (case map_of ps ''duration'' of
                   Some (JNum n) \<Rightarrow> AList.update ''duration'' (JStr (toFixed2 n @ ''ms'')) ps
                 | _ \<Rightarrow> ps)"
    and p2: "ps2 = (if (case map_of ps1 ''name'' of Some v \<Rightarrow> truthy v | None \<Rightarrow> False) then ps1
                 else AList.update ''name'' (JStr ''Unnamed Node'') ps1)"
    and c: "map_of ps2 ''children'' = Some x2" "x2 = JArr cs"
  have "map_of ps1 ''children'' = map_of ps ''children''"
    unfolding p1 by (auto simp: update_conv' split: option.splits json.splits)
  moreover have "map_of ps2 ''children'' = map_of ps1 ''children''"
    unfolding p2 by (auto simp: update_conv')
  ultimately have "map_of ps ''children'' = Some (JArr cs)" using c by simp
  then have "size (JArr cs) < size (JObj ps)" by (rule size_property)
  then show "(Inr cs, Inl (JObj ps))
      \<in> measure (\<lambda>a. case a of Inl n \<Rightarrow> size n | Inr ns \<Rightarrow> size_list size ns)"
    by simp
qed auto

subsection \<open>The specification's two decimal places\<close>

definition two_decimals :: "rat \<Rightarrow> string \<Rightarrow> bool" where
  \<comment> \<open>Written from the specification's words, \<open>value to 2 decimals\<close>: the string is an
      optional minus sign (there exactly when the value is negative), at least one digit,
      a point and exactly two digits, and the digits are those of the magnitude in
      hundredths, rounded to the nearest (a half upwards).\<close>
  "two_decimals q str =
     (let body = (if q < 0 then drop 1 str else str);
          a = takeWhile is_digit body;
          r = dropWhile is_digit body
      in (if q < 0 then take 1 str = ''-'' else True)
         \<and> a \<noteq> []
         \<and> take 1 r = ''.''
         \<and> length (drop 1 r) = 2
         \<and> list_all is_digit (drop 1 r)
         \<and> digits_val (a @ drop 1 r) = \<lfloor>\<bar>q\<bar> * 100 + 1 / 2\<rfloor>)"

section \<open>The tree view\<close>

text \<open>
  A \<open>TreeItem\<close>. The interface declares \<open>title\<close> and \<open>duration\<close> as strings and
  \<open>children\<close> as optional; parsed input is cast to it unchecked, so each of the three
  can be missing when the program runs (\<open>None\<close>).
\<close>

datatype tree_item =
  TreeItem (title: "string option") (duration: "string option") (children: "tree_item list option")

fun hasChildren :: "tree_item \<Rightarrow> bool" where
  \<comment> \<open>\<open>item.children && item.children.length > 0\<close>\<close>
  "hasChildren (TreeItem t d None) = False"
| "hasChildren (TreeItem t d (Some cs)) = (cs \<noteq> [])"

subsection \<open>Component instances\<close>

text \<open>
  The state that the framework keeps for one mounted \<open>TreeNode\<close>: the value of its
  \<open>expanded\<close> hook; the value of \<open>expandAllState\<close> with which its effect last ran
  (\<open>None\<close> from mounting until the effect has run once), which is what the dependency
  list \<open>[expandAllState]\<close> is compared with; and the instances of the child nodes it
  rendered, by position.
\<close>

datatype node_state =
  NodeState (expanded: bool) (seen: "bool option") (kids: "node_state list")

definition mounted :: node_state where
  \<comment> \<open>A node that has just been mounted: \<open>useState(false)\<close>, effect not yet run.\<close>
  "mounted = NodeState False None []"

text \<open>What a \<open>TreeNode\<close> renders: its row and, below it, the rows of its children.\<close>

datatype handler = ToggleExpand

datatype node_view =
  NodeView
    (row_onClick: "handler option")
    (row_cursor: string)
    (row_level: nat)
    (chevron: "bool option")
    (label: "string option")
    (shown_duration: formatted)
    (nested: "node_view list option")

fun TreeNode :: "tree_item \<Rightarrow> nat \<Rightarrow> bool \<Rightarrow> node_state \<Rightarrow> node_view"
  and TreeNodes :: "tree_item list \<Rightarrow> nat \<Rightarrow> bool \<Rightarrow> node_state list \<Rightarrow> node_view list" where
  \<comment> \<open>\<open>TreeNode item level expandAllState\<close> rendered with the hook state of its
      instance. The row has the click handler and the chevron (rotated when expanded)
      only when the item has children; the children are rendered, one level deeper and
      with the same \<open>expandAllState\<close>, only while the node is expanded. A child
      without an instance yet is rendered with the state of a node being mounted.\<close>
  "TreeNode (TreeItem t d co) level expandAllState (NodeState ex sn ks) =
     NodeView
       (if hasChildren (TreeItem t d co) then Some ToggleExpand else None)
       (if hasChildren (TreeItem t d co) then ''pointer'' else ''default'')
       level
       (if hasChildren (TreeItem t d co) then Some ex else None)
       t
       (formatDuration d)
       (case co of
          None \<Rightarrow> None
        | Some cs \<Rightarrow>
            if ex \<and> cs \<noteq> [] then Some (TreeNodes cs (level + 1) expandAllState ks) else None)"
| "TreeNodes [] level expandAllState ks = []"
| "TreeNodes (c # cs) level expandAllState [] =
     TreeNode c level expandAllState mounted # TreeNodes cs level expandAllState []"
| "TreeNodes (c # cs) level expandAllState (k # ks) =
     TreeNode c level expandAllState k # TreeNodes cs level expandAllState ks"

subsection \<open>Render passes\<close>

text \<open>
  One render pass of the framework over a node: the commit keeps the child instances of
  a node that renders its children, mounts the ones that are not there and unmounts the
  children of a node that does not render them (\<open>reconcile\<close>); then the effect
  \<open>setExpanded(expandAllState)\<close> runs in every instance that was just mounted or whose
  \<open>expandAllState\<close> differs from the one of its last run (\<open>run_effects\<close>). A state
  update made by an effect shows in the next pass.
\<close>

fun reconcile :: "tree_item \<Rightarrow> node_state \<Rightarrow> node_state"
  and reconcile_list :: "tree_item list \<Rightarrow> node_state list \<Rightarrow> node_state list" where
  "reconcile (TreeItem t d co) (NodeState ex sn ks) =
     NodeState ex sn
       (case co of
          None \<Rightarrow> []
        | Some cs \<Rightarrow> if ex \<and> cs \<noteq> [] then reconcile_list cs ks else [])"
| "reconcile_list [] ks = []"
| "reconcile_list (c # cs) [] = reconcile c mounted # reconcile_list cs []"
| "reconcile_list (c # cs) (k # ks) = reconcile c k # reconcile_list cs ks"

fun run_effects :: "bool \<Rightarrow> node_state \<Rightarrow> node_state" where
  "run_effects expandAllState (NodeState ex sn ks) =
     NodeState (if sn = Some expandAllState then ex else expandAllState) (Some expandAllState)
       (map (run_effects expandAllState) ks)"

definition render_pass :: "bool \<Rightarrow> tree_item \<Rightarrow> node_state \<Rightarrow> node_state" where
  "render_pass expandAllState item st = run_effects expandAllState (reconcile item st)"

definition render_pass_list :: "bool \<Rightarrow> tree_item list \<Rightarrow> node_state list \<Rightarrow> node_state list" where
  "render_pass_list expandAllState items sts =
     map (run_effects expandAllState) (reconcile_list items sts)"

subsection \<open>Events\<close>

definition click_row :: "tree_item \<Rightarrow> nat \<Rightarrow> bool \<Rightarrow> node_state \<Rightarrow> node_state" where
  \<comment> \<open>A click on the row of a node runs the handler the row was rendered with, if any;
      \<open>toggleExpand\<close> is \<open>setExpanded(!expanded)\<close>.\<close>
  "click_row item level expandAllState st =
     (case row_onClick (TreeNode item level expandAllState st) of
        None \<Rightarrow> st
      | Some ToggleExpand \<Rightarrow> NodeState (\<not> expanded st) (seen st) (kids st))"

fun click_at :: "nat list \<Rightarrow> tree_item list \<Rightarrow> nat \<Rightarrow> bool \<Rightarrow> node_state list \<Rightarrow> node_state list" where
  \<comment> \<open>A click on the row of the node at the given path of child positions, in a list of
      rendered nodes. A position without a rendered node has no row to click.\<close>
  "click_at [] items level expandAllState sts = sts"
| "click_at (i # path) items level expandAllState sts =
     (if i < length items \<and> i < length sts then
        (if path = [] then sts[i := click_row (items ! i) level expandAllState (sts ! i)]
         else
           (case children (items ! i) of
              None \<Rightarrow> sts
            | Some cs \<Rightarrow>
                sts[i := NodeState (expanded (sts ! i)) (seen (sts ! i))
                          (click_at path cs (level + 1) expandAllState (kids (sts ! i)))]))
      else sts)"

text \<open>
  The state behind a tree view: the \<open>expandAll\<close> flag of the component that owns it and
  the instances of the top-level nodes.
\<close>

record tree_view =
  expandAll :: bool
  instances :: "node_state list"

definition click_expand_all :: "tree_view \<Rightarrow> tree_view" where
  \<comment> \<open>The button's \<open>onClick\<close>: \<open>setExpandAll(!expandAll)\<close>\<close>
  "click_expand_all tv = tv\<lparr>expandAll := \<not> expandAll tv\<rparr>"

definition click_node :: "tree_item list \<Rightarrow> nat list \<Rightarrow> tree_view \<Rightarrow> tree_view" where
  "click_node items path tv =
     tv\<lparr>instances := click_at path items 0 (expandAll tv) (instances tv)\<rparr>"

definition rerender :: "tree_item list \<Rightarrow> tree_view \<Rightarrow> tree_view" where
  \<comment> \<open>One render pass of the whole view with the current \<open>expandAll\<close>.\<close>
  "rerender items tv = tv\<lparr>instances := render_pass_list (expandAll tv) items (instances tv)\<rparr>"

subsection \<open>\<open>TreeViewContent\<close>\<close>

datatype element =
    Button string
  | LoadingIndicator
  | NoData
  | NodeList "node_view list"

definition TreeViewContent :: "tree_item list \<Rightarrow> bool \<Rightarrow> bool \<Rightarrow> node_state list \<Rightarrow> element list" where
  \<comment> \<open>The elements rendered for \<open>data\<close>, \<open>isLoading\<close> and \<open>expandAll\<close>, in document
      order; the top-level nodes are at level 0, the default of \<open>TreeNode\<close>.\<close>
  "TreeViewContent data isLoading expandAll_flag sts =
     [Button (if expandAll_flag then ''Collapse All'' else ''Expand All''),
      (if isLoading then LoadingIndicator
       else if data \<noteq> [] then NodeList (TreeNodes data 0 expandAll_flag sts)
       else NoData)]"

subsection \<open>Notions used to state the behaviour of the tree\<close>

fun every :: "(bool \<Rightarrow> bool option \<Rightarrow> bool) \<Rightarrow> node_state \<Rightarrow> bool" where
  \<comment> \<open>The property holds of \<open>expanded\<close> and \<open>seen\<close> of the instance and of all the
      instances below it, at every depth.\<close>
  "every P (NodeState ex sn ks) = (P ex sn \<and> list_all (every P) ks)"

fun full :: "tree_item \<Rightarrow> node_state" where
  \<comment> \<open>The instances of a tree in which every node is mounted and expanded.\<close>
  "full (TreeItem t d None) = NodeState True (Some True) []"
| "full (TreeItem t d (Some cs)) = NodeState True (Some True) (map full cs)"

definition collapsed :: node_state where
  \<comment> \<open>A collapsed node, which has no instances below it.\<close>
  "collapsed = NodeState False (Some False) []"

fun height :: "tree_item \<Rightarrow> nat" where
  \<comment> \<open>The number of levels below a node.\<close>
  "height (TreeItem t d None) = 0"
| "height (TreeItem t d (Some cs)) = (if cs = [] then 0 else Suc (foldr max (map height cs) 0))"

definition heights :: "tree_item list \<Rightarrow> nat" where
  "heights items = foldr max (map height items) 0"

fun item_at :: "tree_item list \<Rightarrow> nat list \<Rightarrow> tree_item option" where
  \<comment> \<open>The item at a path of child positions.\<close>
  "item_at items [] = None"
| "item_at items (i # path) =
     (if i < length items then
        (if path = [] then Some (items ! i)
         else (case children (items ! i) of None \<Rightarrow> None | Some cs \<Rightarrow> item_at cs path))
      else None)"

definition example_items :: "tree_item list" where
  \<comment> \<open>A tree of four levels, in the shape of the program's example input, used to
      evaluate the statements below: \<open>a\<close> has the children \<open>b\<close> and \<open>e\<close>, \<open>b\<close> has
      the child \<open>c\<close>, and \<open>c\<close> has the child \<open>d\<close>.\<close>
  "example_items =
     [TreeItem (Some ''a'') (Some ''33.17s'')
        (Some [TreeItem (Some ''b'') (Some ''25.18s'')
                 (Some [TreeItem (Some ''c'') (Some ''431.98ms'')
                          (Some [TreeItem (Some ''d'') (Some ''52.04ms'') None])]),
               TreeItem (Some ''e'') (Some ''8.12s'') None])]"

section \<open>The custom tab\<close>

text \<open>The state hooks of \<open>CustomTabContent\<close>.\<close>

record custom_tab =
  inputValue :: string
  urlValue :: string
  parsedData :: "json list"
  expandAll_custom :: bool
  showError :: bool
  errorMessage :: string
  loading :: bool

definition handleDisplay :: "(string \<Rightarrow> js_error + json) \<Rightarrow> custom_tab \<Rightarrow> custom_tab" where
  \<comment> \<open>The handler of the display button, as the state after it has run. The first
      argument is the host's \<open>JSON.parse\<close>, which returns a value or throws a
      \<open>SyntaxError\<close>. Everything between \<open>try\<close> and \<open>catch\<close> that throws ends in
      the \<open>catch\<close> block; the \<open>finally\<close> block runs on both paths. The handler calls
      state setters only, which do not throw, so it always returns.\<close>
  "handleDisplay JSON_parse st =
     (let st1 = st\<lparr>loading := True\<rparr>;
          attempt =
            (case JSON_parse (inputValue st) of
               Inl e \<Rightarrow> Inl e
             | Inr data \<Rightarrow>
                 (case data of
                    JArr xs \<Rightarrow> processNodes xs
                  | _ \<Rightarrow> (case processNode data of Inl e \<Rightarrow> Inl e | Inr n \<Rightarrow> Inr [n])));
          st2 =
            (case attempt of
               Inr processedData \<Rightarrow> st1\<lparr>parsedData := processedData, showError := False\<rparr>
             | Inl error \<Rightarrow>
                 st1\<lparr>parsedData := [], showError := True,
                     errorMessage :=
                       ''Error parsing JSON data. Please check your input and try again.''\<rparr>)
      in st2\<lparr>loading := False\<rparr>)"

subsection \<open>From parsed data to tree items\<close>

function as_TreeItem :: "json \<Rightarrow> tree_item option"
  and as_TreeItems :: "json list \<Rightarrow> tree_item list option" where
  \<comment> \<open>The unchecked cast of parsed data to \<open>TreeItem\<close>, for the values that have the
      declared shape: an object whose \<open>title\<close> and \<open>duration\<close>, if there, are strings
      and whose \<open>children\<close>, if there, is an array of such objects. Other values are
      outside the typed program (\<open>None\<close>).\<close>
  "as_TreeItem (JObj ps) =
     (case (case map_of ps ''title'' of
              None \<Rightarrow> Some None | Some (JStr s) \<Rightarrow> Some (Some s) | Some _ \<Rightarrow> None) of
        None \<Rightarrow> None
      | Some t \<Rightarrow>
          (case (case map_of ps ''duration'' of
                   None \<Rightarrow> Some None | Some (JStr s) \<Rightarrow> Some (Some s) | Some _ \<Rightarrow> None) of
             None \<Rightarrow> None
           | Some d \<Rightarrow>
               (case map_of ps ''children'' of
                  None \<Rightarrow> Some (TreeItem t d None)
                | Some (JArr cs) \<Rightarrow>
                    (case as_TreeItems cs of
                       None \<Rightarrow> None
                     | Some items \<Rightarrow> Some (TreeItem t d (Some items)))
                | Some _ \<Rightarrow> None)))"
| "as_TreeItem JNull = None"
| "as_TreeItem (JBool b) = None"
| "as_TreeItem (JNum n) = None"
| "as_TreeItem (JStr s) = None"
| "as_TreeItem (JArr xs) = None"
| "as_TreeItems [] = Some []"
| "as_TreeItems (x # xs) =
     (case as_TreeItem x of
        None \<Rightarrow> None
      | Some i \<Rightarrow> (case as_TreeItems xs of None \<Rightarrow> None | Some is \<Rightarrow> Some (i # is)))"
  by pat_completeness auto
termination
proof (relation "measure (\<lambda>a. case a of Inl n \<Rightarrow> size n | Inr ns \<Rightarrow> size_list size ns)")
  show "wf (measure (\<lambda>a. case a of Inl n \<Rightarrow> size n | Inr ns \<Rightarrow> size_list size ns))"
    by simp
next
  fix ps :: "(string \<times> json) list" and x2 cs
  assume "map_of ps ''children'' = Some x2" "x2 = JArr cs"
  then have "size (JArr cs) < size (JObj ps)" using size_property by blast
  then show "(Inr cs, Inl (JObj ps))
      \<in> measure (\<lambda>a. case a of Inl n \<Rightarrow> size n | Inr ns \<Rightarrow> size_list size ns)"
    by simp
qed auto

subsection \<open>What the tab shows of the result\<close>

datatype tab_element =
    ErrorBox string
  | Processing
  | Tree "element list"
  | Untyped "json list"

definition CustomTabContent_result :: "custom_tab \<Rightarrow> node_state list \<Rightarrow> tab_element list" where
  \<comment> \<open>The part of what \<open>CustomTabContent\<close> renders below its inputs: the error box
      while \<open>showError\<close> is set; then the processing indicator while \<open>loading\<close> is set,
      or else the tree view when there is data.\<close>
  "CustomTabContent_result st sts =
     (if showError st then
        [ErrorBox (if errorMessage st \<noteq> [] then errorMessage st
                   else ''Error parsing JSON data. Please check your input and try again.'')]
      else [])
     @ (if loading st then [Processing]
        else if parsedData st \<noteq> [] then
          (case as_TreeItems (parsedData st) of
             Some items \<Rightarrow> [Tree (TreeViewContent items False (expandAll_custom st) sts)]
           | None \<Rightarrow> [Untyped (parsedData st)])
        else [])"

section \<open>Properties of the duration classifier\<close>

subsection \<open>Substrings\<close>

lemma startsWith_iff: "startsWith s p \<longleftrightarrow> (\<exists>b. s = p @ b)"
  by (induction s p rule: startsWith.induct) auto

lemma includes_str_iff: "includes_str s p \<longleftrightarrow> (\<exists>a b. s = a @ p @ b)"
proof (induction s)
  case Nil
  show ?case by simp
next
  case (Cons c cs)
  show ?case
  proof
    assume "includes_str (c # cs) p"
    then consider "startsWith (c # cs) p" | "includes_str cs p" by auto
    then show "\<exists>a b. c # cs = a @ p @ b"
    proof cases
      case 1
      then obtain b where "c # cs = p @ b" by (auto simp: startsWith_iff)
      then have "c # cs = [] @ p @ b" by simp
      then show ?thesis by blast
    next
      case 2
      then obtain a b where "cs = a @ p @ b" using Cons.IH by blast
      then have "c # cs = (c # a) @ p @ b" by simp
      then show ?thesis by blast
    qed
  next
    assume "\<exists>a b. c # cs = a @ p @ b"
    then obtain a b where e: "c # cs = a @ p @ b" by blast
    show "includes_str (c # cs) p"
    proof (cases a)
      case Nil
      with e have "startsWith (c # cs) p" by (auto simp: startsWith_iff)
      then show ?thesis by simp
    next
      case (Cons x a')
      with e have "cs = a' @ p @ b" by simp
      then have "includes_str cs p" using Cons.IH by blast
      then show ?thesis by simp
    qed
  qed
qed

lemma includes_str_suffix: "includes_str s (p @ q) \<Longrightarrow> includes_str s q"
proof -
  assume "includes_str s (p @ q)"
  then obtain a b where "s = a @ (p @ q) @ b" by (auto simp: includes_str_iff)
  then have "s = (a @ p) @ q @ b" by simp
  then show ?thesis unfolding includes_str_iff by blast
qed

lemma replace_absent: "\<not> includes_str s p \<Longrightarrow> replace s p r = s"
  by (induction s) auto

lemma no_unit_iff:
  "\<not> includes_str t ''s'' \<longleftrightarrow>
     \<not> (includes_str t ''s'' \<and> \<not> includes_str t ''ms'' \<and> \<not> includes_str t (micro @ ''s''))
     \<and> \<not> includes_str t ''ms'' \<and> \<not> includes_str t (micro @ ''s'')"
  using includes_str_suffix [of t "''m''" "''s''"] includes_str_suffix [of t micro "''s''"]
  by auto

lemma spec_classify_chain:
  "tier_class (spec_classify m) =
     (if js_ge m 1000 then ''text-red-600 font-bold''
      else if js_ge m 250 then ''text-amber-500 font-bold''
      else if js_ge m 100 then ''text-orange-500 font-bold''
      else '''')"
  by (cases m) (auto simp: spec_classify_def)

subsection \<open>Threshold classification\<close>

text \<open>
  C1, as stated: for every duration string without a severity marker the class is the
  tier of the computed magnitude and the display text is the input unchanged. The empty
  string has no marker, yet the guard on a missing or empty input returns the text
  \<open>0s\<close> for it.
\<close>

theorem formatDuration_empty_counterexample:
  "\<not> has_marker '''' \<and> text_str (formatDuration (Some '''')) \<noteq> ''''"
  by (simp add: has_marker_def formatDuration_def)

text \<open>
  C1, amended: for every non-empty duration string without a severity marker, the class
  is the one of the tier that the specification's intervals give to the computed
  magnitude \<open>m\<close> (error iff \<open>m \<ge> 1000\<close>, warning iff \<open>250 \<le> m < 1000\<close>, moderate iff
  \<open>100 \<le> m < 250\<close>, none otherwise, which includes a magnitude that is not a number),
  the magnitudes 1000, 250 and 100 themselves land in the higher tier, and the display
  text is the input string unchanged.
\<close>

theorem formatDuration_thresholds:
  assumes "d \<noteq> []" and "\<not> has_marker d"
  shows "formatDuration (Some d) =
           \<lparr>text_str = d, className = tier_class (spec_classify (extractTimeInMs d))\<rparr>
         \<and> (extractTimeInMs d = Fin 1000 \<longrightarrow>
              className (formatDuration (Some d)) = tier_class SevError)
         \<and> (extractTimeInMs d = Fin 250 \<longrightarrow>
              className (formatDuration (Some d)) = tier_class SevWarning)
         \<and> (extractTimeInMs d = Fin 100 \<longrightarrow>
              className (formatDuration (Some d)) = tier_class SevModerate)"
proof -
  from assms have nm: "\<not> includes_str d ''error''" "\<not> includes_str d ''warn''"
    "\<not> includes_str d ''orange''"
    by (simp_all add: has_marker_def)
  have eq: "formatDuration (Some d) =
           \<lparr>text_str = d, className = tier_class (spec_classify (extractTimeInMs d))\<rparr>"
    using assms(1) nm by (simp add: formatDuration_def Let_def spec_classify_chain)
  have c1: "tier_class (spec_classify (Fin 1000)) = tier_class SevError" by (simp add: spec_classify_def)
  have c2: "tier_class (spec_classify (Fin 250)) = tier_class SevWarning" by (simp add: spec_classify_def)
  have c3: "tier_class (spec_classify (Fin 100)) = tier_class SevModerate" by (simp add: spec_classify_def)
  show ?thesis unfolding eq using c1 c2 c3 by auto
qed

theorem formatDuration_thresholds_witness:
  "''250ms'' \<noteq> [] \<and> \<not> has_marker ''250ms'' \<and> extractTimeInMs ''250ms'' = Fin 250
   \<and> formatDuration (Some ''250ms'') =
       \<lparr>text_str = ''250ms'', className = ''text-amber-500 font-bold''\<rparr>"
proof -
  have a: "''250ms'' \<noteq> []" by simp
  have b: "\<not> has_marker ''250ms''" by code_simp
  have c: "extractTimeInMs ''250ms'' = Fin 250" by code_simp
  have d: "tier_class (spec_classify (Fin 250)) = ''text-amber-500 font-bold''" by code_simp
  have e: "formatDuration (Some ''250ms'') =
       \<lparr>text_str = ''250ms'', className = ''text-amber-500 font-bold''\<rparr>"
    using formatDuration_thresholds [OF a b] unfolding c d by blast
  from a b c e show ?thesis by blast
qed

text \<open>The tiers on both sides of each threshold, and at a magnitude that is not a number.\<close>

lemma formatDuration_boundaries:
  "formatDuration (Some ''1000ms'') = \<lparr>text_str = ''1000ms'', className = tier_class SevError\<rparr>"
  "formatDuration (Some ''999.99ms'') = \<lparr>text_str = ''999.99ms'', className = tier_class SevWarning\<rparr>"
  "formatDuration (Some ''250ms'') = \<lparr>text_str = ''250ms'', className = tier_class SevWarning\<rparr>"
  "formatDuration (Some ''249.99ms'') = \<lparr>text_str = ''249.99ms'', className = tier_class SevModerate\<rparr>"
  "formatDuration (Some ''100ms'') = \<lparr>text_str = ''100ms'', className = tier_class SevModerate\<rparr>"
  "formatDuration (Some ''99.99ms'') = \<lparr>text_str = ''99.99ms'', className = tier_class SevNone\<rparr>"
  "formatDuration (Some ''abcs'') = \<lparr>text_str = ''abcs'', className = tier_class SevNone\<rparr>"
  by code_simp+

subsection \<open>Magnitude extraction\<close>

text \<open>
  C2: with \<open>t\<close> the duration string after its tags are removed, the magnitude in
  milliseconds is found by the first of these cases that applies: \<open>t\<close> contains \<open>s\<close>
  but neither \<open>ms\<close> nor \<open>\<mu>s\<close>, and the magnitude is the parsed number times 1000;
  \<open>t\<close> contains \<open>ms\<close>, and it is the parsed number as it is; \<open>t\<close> contains
  \<open>\<mu>s\<close>, and it is the parsed number divided by 1000; \<open>t\<close> has no recognised unit
  (which is to say no \<open>s\<close> at all, see \<open>no_unit_iff\<close>), and it is the parsed number,
  or 0 when \<open>t\<close> does not parse. So \<open>1s\<close>, \<open>1000ms\<close> and \<open>1000000\<mu>s\<close> all have
  the magnitude 1000 and are classified as error.
\<close>

theorem extractTimeInMs_units:
  "(includes_str (strip_tags d) ''s'' \<and> \<not> includes_str (strip_tags d) ''ms''
      \<and> \<not> includes_str (strip_tags d) (micro @ ''s'')
    \<longrightarrow> extractTimeInMs d = js_times (parseFloat (strip_tags d)) 1000)
   \<and> (includes_str (strip_tags d) ''ms''
    \<longrightarrow> extractTimeInMs d = parseFloat (strip_tags d))
   \<and> (\<not> includes_str (strip_tags d) ''ms'' \<and> includes_str (strip_tags d) (micro @ ''s'')
    \<longrightarrow> extractTimeInMs d = js_divide (parseFloat (strip_tags d)) 1000)
   \<and> (\<not> includes_str (strip_tags d) ''s'' \<and> \<not> isNaN (parseFloat (strip_tags d))
    \<longrightarrow> extractTimeInMs d = parseFloat (strip_tags d))
   \<and> (\<not> includes_str (strip_tags d) ''s'' \<and> isNaN (parseFloat (strip_tags d))
    \<longrightarrow> extractTimeInMs d = Fin 0)
   \<and> extractTimeInMs ''1s'' = Fin 1000
   \<and> extractTimeInMs ''1000ms'' = Fin 1000
   \<and> extractTimeInMs (''1000000'' @ micro @ ''s'') = Fin 1000
   \<and> className (formatDuration (Some ''1s'')) = tier_class SevError
   \<and> className (formatDuration (Some ''1000ms'')) = tier_class SevError
   \<and> className (formatDuration (Some (''1000000'' @ micro @ ''s''))) = tier_class SevError"
proof -
  let ?t = "strip_tags d"
  have ms: "includes_str ?t ''ms'' \<Longrightarrow> includes_str ?t ''s''"
    using includes_str_suffix [of ?t "''m''" "''s''"] by simp
  have us: "includes_str ?t (micro @ ''s'') \<Longrightarrow> includes_str ?t ''s''"
    by (rule includes_str_suffix)
  have g1: "includes_str ?t ''s'' \<and> \<not> includes_str ?t ''ms'' \<and> \<not> includes_str ?t (micro @ ''s'')
    \<longrightarrow> extractTimeInMs d = js_times (parseFloat ?t) 1000"
    by (simp add: extractTimeInMs_def)
  have g2: "includes_str ?t ''ms'' \<longrightarrow> extractTimeInMs d = parseFloat ?t"
    by (simp add: extractTimeInMs_def)
  have g3: "\<not> includes_str ?t ''ms'' \<and> includes_str ?t (micro @ ''s'')
    \<longrightarrow> extractTimeInMs d = js_divide (parseFloat ?t) 1000"
    by (simp add: extractTimeInMs_def)
  have g4: "\<not> includes_str ?t ''s'' \<and> \<not> isNaN (parseFloat ?t)
    \<longrightarrow> extractTimeInMs d = parseFloat ?t"
    using ms us by (auto simp add: extractTimeInMs_def Let_def)
  have g5: "\<not> includes_str ?t ''s'' \<and> isNaN (parseFloat ?t) \<longrightarrow> extractTimeInMs d = Fin 0"
    using ms us by (auto simp add: extractTimeInMs_def Let_def)
  have e1: "extractTimeInMs ''1s'' = Fin 1000" by code_simp
  have e2: "extractTimeInMs ''1000ms'' = Fin 1000" by code_simp
  have e3: "extractTimeInMs (''1000000'' @ micro @ ''s'') = Fin 1000" by code_simp
  have f1: "className (formatDuration (Some ''1s'')) = tier_class SevError" by code_simp
  have f2: "className (formatDuration (Some ''1000ms'')) = tier_class SevError" by code_simp
  have f3: "className (formatDuration (Some (''1000000'' @ micro @ ''s''))) = tier_class SevError"
    by code_simp
  from g1 g2 g3 g4 g5 e1 e2 e3 f1 f2 f3 show ?thesis by blast
qed

text \<open>
  One duration string for each of the four cases, with values that the host's numbers
  hold exactly; the last two are a text that does not parse, without a unit and with one.
\<close>

theorem extractTimeInMs_units_witness:
  "extractTimeInMs ''<b>33.17s</b>'' = Fin 33170
   \<and> extractTimeInMs ''431.5ms'' = Fin (863 / 2)
   \<and> extractTimeInMs (''2000'' @ micro @ ''s'') = Fin 2
   \<and> extractTimeInMs ''12.5'' = Fin (25 / 2)
   \<and> extractTimeInMs ''n/a'' = Fin 0
   \<and> extractTimeInMs ''fast'' = NaN"
proof -
  have t1: "strip_tags ''<b>33.17s</b>'' = ''33.17s''" by code_simp
  have a1: "includes_str ''33.17s'' ''s'' \<and> \<not> includes_str ''33.17s'' ''ms''
      \<and> \<not> includes_str ''33.17s'' (micro @ ''s'')" by code_simp
  have p1: "js_times (parseFloat ''33.17s'') 1000 = Fin 33170" by code_simp
  have r1: "extractTimeInMs ''<b>33.17s</b>'' = Fin 33170"
    using extractTimeInMs_units [of "''<b>33.17s</b>''"] a1 unfolding t1 p1 by blast
  have r2: "extractTimeInMs ''431.5ms'' = Fin (863 / 2)" by code_simp
  have r3: "extractTimeInMs (''2000'' @ micro @ ''s'') = Fin 2" by code_simp
  have r4: "extractTimeInMs ''12.5'' = Fin (25 / 2)" by code_simp
  have r5: "extractTimeInMs ''n/a'' = Fin 0" by code_simp
  have r6: "extractTimeInMs ''fast'' = NaN" by code_simp
  from r1 r2 r3 r4 r5 r6 show ?thesis by blast
qed

subsection \<open>Severity markers\<close>









text \<open>
  C10: a marker is found by plain substring containment in the duration string as it was
  given, in the fixed order \<open>error\<close>, \<open>warn\<close>, \<open>orange\<close>. A string that contains
  \<open>error\<close> anywhere has the error tier, with or without the wrapper and also inside
  another word; a string without \<open>error\<close> that contains \<open>warn\<close> has the warning tier,
  also when it contains \<open>orange\<close> as well; only then does \<open>orange\<close> give the moderate
  tier. Nothing but the exact opening tag of the marker found and the closing tag is
  removed from the text: a string that holds neither is displayed unchanged.
\<close>

theorem marker_detection:
  "(includes_str d ''error'' \<longrightarrow> className (formatDuration (Some d)) = tier_class SevError)
   \<and> (\<not> includes_str d ''error'' \<and> includes_str d ''warn'' \<longrightarrow>
        className (formatDuration (Some d)) = tier_class SevWarning)
   \<and> (\<not> includes_str d ''error'' \<and> \<not> includes_str d ''warn'' \<and> includes_str d ''orange'' \<longrightarrow>
        className (formatDuration (Some d)) = tier_class SevModerate)
   \<and> (includes_str d ''error'' \<and> \<not> includes_str d ''<span class=\"error\">''
        \<and> \<not> includes_str d ''</span>'' \<longrightarrow> text_str (formatDuration (Some d)) = d)
   \<and> (\<not> includes_str d ''error'' \<and> includes_str d ''warn''
        \<and> \<not> includes_str d ''<span class=\"warn\">''
        \<and> \<not> includes_str d ''</span>'' \<longrightarrow> text_str (formatDuration (Some d)) = d)
   \<and> (\<not> includes_str d ''error'' \<and> \<not> includes_str d ''warn'' \<and> includes_str d ''orange''
        \<and> \<not> includes_str d ''<span class=\"orange\">''
        \<and> \<not> includes_str d ''</span>'' \<longrightarrow> text_str (formatDuration (Some d)) = d)"
proof -
  have ne: "\<And>k. includes_str d k \<Longrightarrow> k \<noteq> [] \<Longrightarrow> d \<noteq> []"
    by (cases d) auto
  have g1: "includes_str d ''error'' \<longrightarrow> className (formatDuration (Some d)) = tier_class SevError"
    using ne [of "''error''"] by (simp add: formatDuration_def)
  have g2: "\<not> includes_str d ''error'' \<and> includes_str d ''warn'' \<longrightarrow>
        className (formatDuration (Some d)) = tier_class SevWarning"
    using ne [of "''warn''"] by (simp add: formatDuration_def)
  have g3: "\<not> includes_str d ''error'' \<and> \<not> includes_str d ''warn'' \<and> includes_str d ''orange'' \<longrightarrow>
        className (formatDuration (Some d)) = tier_class SevModerate"
    using ne [of "''orange''"] by (simp add: formatDuration_def)
  have g4: "includes_str d ''error'' \<and> \<not> includes_str d ''<span class=\"error\">''
        \<and> \<not> includes_str d ''</span>'' \<longrightarrow> text_str (formatDuration (Some d)) = d"
    using ne [of "''error''"] by (simp add: formatDuration_def replace_absent)
  have g5: "\<not> includes_str d ''error'' \<and> includes_str d ''warn''
        \<and> \<not> includes_str d ''<span class=\"warn\">''
        \<and> \<not> includes_str d ''</span>'' \<longrightarrow> text_str (formatDuration (Some d)) = d"
    using ne [of "''warn''"] by (simp add: formatDuration_def replace_absent)
  have g6: "\<not> includes_str d ''error'' \<and> \<not> includes_str d ''warn'' \<and> includes_str d ''orange''
        \<and> \<not> includes_str d ''<span class=\"orange\">''
        \<and> \<not> includes_str d ''</span>'' \<longrightarrow> text_str (formatDuration (Some d)) = d"
    using ne [of "''orange''"] by (simp add: formatDuration_def replace_absent)
  from g1 g2 g3 g4 g5 g6 show ?thesis by blast
qed

text \<open>
  \<open>error\<close> inside another word and without a wrapper; \<open>warn\<close> together with
  \<open>orange\<close>; and a tag that is not the exact wrapper text, which stays in the display.
\<close>

theorem marker_detection_witness:
  "includes_str ''terror 5ms'' ''error''
   \<and> formatDuration (Some ''terror 5ms'') =
       \<lparr>text_str = ''terror 5ms'', className = ''text-red-600 font-bold''\<rparr>
   \<and> formatDuration (Some ''warn orange'') =
       \<lparr>text_str = ''warn orange'', className = ''text-amber-500 font-bold''\<rparr>
   \<and> formatDuration (Some ''<span class='orange'>2ms</span>'') =
       \<lparr>text_str = ''<span class='orange'>2ms'', className = ''text-orange-500 font-bold''\<rparr>"
proof -
  have a: "includes_str ''terror 5ms'' ''error''" by code_simp
  have b: "\<not> includes_str ''terror 5ms'' ''<span class=\"error\">''" by code_simp
  have c: "\<not> includes_str ''terror 5ms'' ''</span>''" by code_simp
  from marker_detection [of "''terror 5ms''"] a b c
  have d: "className (formatDuration (Some ''terror 5ms'')) = tier_class SevError"
    and e: "text_str (formatDuration (Some ''terror 5ms'')) = ''terror 5ms''"
    by blast+
  have f: "formatDuration (Some ''terror 5ms'') =
       \<lparr>text_str = ''terror 5ms'', className = ''text-red-600 font-bold''\<rparr>"
    using d e by (cases "formatDuration (Some ''terror 5ms'')") simp
  have g: "formatDuration (Some ''warn orange'') =
       \<lparr>text_str = ''warn orange'', className = ''text-amber-500 font-bold''\<rparr>"
    by code_simp
  have h: "formatDuration (Some ''<span class='orange'>2ms</span>'') =
       \<lparr>text_str = ''<span class='orange'>2ms'', className = ''text-orange-500 font-bold''\<rparr>"
    by code_simp
  from a f g h show ?thesis by blast
qed


section \<open>Properties of the normalisation\<close>

lemma processNode_properties:
  assumes "processNode (JObj ps) = Inr r"
  shows "\<exists>ps'. r = JObj ps'
           \<and> map_of ps' ''title'' = map_of ps ''title''
           \<and> map_of ps' ''duration'' =
               (case map_of ps ''duration'' of
                  Some (JNum n) \<Rightarrow> Some (JStr (toFixed2 n @ ''ms''))
                | d \<Rightarrow> d)"
proof -
  define ps1 where "ps1 = (case map_of ps ''duration'' of
                   Some (JNum n) \<Rightarrow> AList.update ''duration'' (JStr (toFixed2 n @ ''ms'')) ps
                 | _ \<Rightarrow> ps)"
  define ps2 where "ps2 = (if (case map_of ps1 ''name'' of Some v \<Rightarrow> truthy v | None \<Rightarrow> False) then ps1
                 else AList.update ''name'' (JStr ''Unnamed Node'') ps1)"
  have t1: "map_of ps1 ''title'' = map_of ps ''title''"
    unfolding ps1_def by (auto simp: update_conv' split: option.splits json.splits)
  have d1: "map_of ps1 ''duration'' =
               (case map_of ps ''duration'' of
                  Some (JNum n) \<Rightarrow> Some (JStr (toFixed2 n @ ''ms''))
                | d \<Rightarrow> d)"
    unfolding ps1_def by (auto simp: update_conv' split: option.splits json.splits)
  have t2: "map_of ps2 ''title'' = map_of ps1 ''title''"
    and d2: "map_of ps2 ''duration'' = map_of ps1 ''duration''"
    unfolding ps2_def by (auto simp: update_conv')
  have r: "processNode (JObj ps) =
     (case map_of ps2 ''children'' of
           Some (JArr cs) \<Rightarrow>
             (case processNodes cs of
                Inl e \<Rightarrow> Inl e
              | Inr cs' \<Rightarrow> Inr (JObj (AList.update ''children'' (JArr cs') ps2)))
         | _ \<Rightarrow> Inr (JObj ps2))"
    unfolding ps1_def ps2_def by (simp add: Let_def)
  show ?thesis
  proof (cases "\<exists>cs cs'. map_of ps2 ''children'' = Some (JArr cs) \<and> processNodes cs = Inr cs'")
    case True
    then obtain cs cs' where c: "map_of ps2 ''children'' = Some (JArr cs)" "processNodes cs = Inr cs'"
      by blast
    with r assms have "r = JObj (AList.update ''children'' (JArr cs') ps2)" by simp
    moreover have "map_of (AList.update ''children'' (JArr cs') ps2) ''title'' = map_of ps ''title''"
      using t1 t2 by (simp add: update_conv')
    moreover have "map_of (AList.update ''children'' (JArr cs') ps2) ''duration'' =
               (case map_of ps ''duration'' of
                  Some (JNum n) \<Rightarrow> Some (JStr (toFixed2 n @ ''ms''))
                | d \<Rightarrow> d)"
      using d1 d2 by (simp add: update_conv')
    ultimately show ?thesis by blast
  next
    case False
    with r assms have "r = JObj ps2"
      by (auto split: option.splits json.splits sum.splits)
    then show ?thesis using t1 t2 d1 d2 by simp
  qed
qed

lemma processNode_leaf:
  assumes "map_of ps ''children'' = None"
  shows "\<exists>ps'. processNode (JObj ps) = Inr (JObj ps')"
proof -
  define ps1 where "ps1 = (case map_of ps ''duration'' of
                   Some (JNum n) \<Rightarrow> AList.update ''duration'' (JStr (toFixed2 n @ ''ms'')) ps
                 | _ \<Rightarrow> ps)"
  define ps2 where "ps2 = (if (case map_of ps1 ''name'' of Some v \<Rightarrow> truthy v | None \<Rightarrow> False) then ps1
                 else AList.update ''name'' (JStr ''Unnamed Node'') ps1)"
  have "map_of ps1 ''children'' = None"
    unfolding ps1_def using assms by (auto simp: update_conv' split: option.splits json.splits)
  then have "map_of ps2 ''children'' = None"
    unfolding ps2_def by (auto simp: update_conv')
  then have "processNode (JObj ps) = Inr (JObj ps2)"
    unfolding ps1_def ps2_def by (simp add: Let_def)
  then show ?thesis by blast
qed

text \<open>
  C4: a raw node without a title is given a placeholder title by the normalisation, so
  that every normalised node is rendered with a non-empty title. The program gives the
  placeholder to the property \<open>name\<close>, which nothing reads, and leaves \<open>title\<close> as
  it was (\<open>processNode_properties\<close>): the node \<open>{"duration": "1s"}\<close> is normalised
  to a node without a title and rendered with an empty label.
\<close>

theorem processNode_untitled:
  "processNode (JObj [(''duration'', JStr ''1s'')]) =
     Inr (JObj [(''duration'', JStr ''1s''), (''name'', JStr ''Unnamed Node'')])
   \<and> as_TreeItem (JObj [(''duration'', JStr ''1s''), (''name'', JStr ''Unnamed Node'')]) =
       Some (TreeItem None (Some ''1s'') None)
   \<and> label (TreeNode (TreeItem None (Some ''1s'') None) 0 False mounted) = None"
  by (simp add: mounted_def AList.update.simps)

subsection \<open>Two decimal places\<close>

lemma digit_char:
  assumes "0 \<le> k" and "k < 10"
  shows "of_char (''0123456789'' ! nat k) = 48 + k"
proof -
  from assms have "k = 0 \<or> k = 1 \<or> k = 2 \<or> k = 3 \<or> k = 4 \<or> k = 5 \<or> k = 6 \<or> k = 7
      \<or> k = 8 \<or> k = 9"
    by arith
  then show ?thesis by (elim disjE) simp_all
qed

lemma digit_char_is_digit:
  assumes "0 \<le> k" and "k < 10"
  shows "is_digit (''0123456789'' ! nat k)"
proof -
  from assms have "k = 0 \<or> k = 1 \<or> k = 2 \<or> k = 3 \<or> k = 4 \<or> k = 5 \<or> k = 6 \<or> k = 7
      \<or> k = 8 \<or> k = 9"
    by arith
  then show ?thesis by (elim disjE) (simp_all add: is_digit_def)
qed

lemma digits_val_snoc: "digits_val (ds @ [c]) = 10 * digits_val ds + (of_char c - 48)"
  by (simp add: digits_val_def)

lemma decimal_props:
  "0 \<le> n \<Longrightarrow> decimal n \<noteq> [] \<and> list_all is_digit (decimal n) \<and> digits_val (decimal n) = n"
proof (induction n rule: decimal.induct)
  case (1 n)
  show ?case
  proof (cases "n < 10")
    case True
    then have d: "decimal n = [''0123456789'' ! nat n]" by (simp add: decimal.simps)
    have "digits_val [''0123456789'' ! nat n] = n"
      using digit_char [OF "1.prems" True] by (simp add: digits_val_def)
    then show ?thesis using d digit_char_is_digit [OF "1.prems" True] by simp
  next
    case False
    then have d: "decimal n = decimal (n div 10) @ [''0123456789'' ! nat (n mod 10)]"
      by (subst decimal.simps) simp
    have p: "0 \<le> n div 10" "0 \<le> n mod 10" "n mod 10 < 10" using "1.prems" by simp_all
    from "1.IH" [OF False p(1)]
    have ih: "list_all is_digit (decimal (n div 10))" "digits_val (decimal (n div 10)) = n div 10"
      by simp_all
    have "digits_val (decimal n) = 10 * (n div 10) + n mod 10"
      unfolding d digits_val_snoc ih(2) using digit_char [OF p(2,3)] by simp
    then have "digits_val (decimal n) = n" by simp
    moreover have "list_all is_digit (decimal n)"
      unfolding d using ih(1) digit_char_is_digit [OF p(2,3)] by simp
    ultimately show ?thesis using d by simp
  qed
qed

lemma digits_val_zeros: "digits_val (replicate k (CHR ''0'') @ ds) = digits_val ds"
proof -
  have "foldl (\<lambda>a c. 10 * a + (of_char c - 48)) (0::int) (replicate k (CHR ''0'')) = 0"
    by (induction k) simp_all
  then show ?thesis by (simp add: digits_val_def)
qed

lemma is_digit_zero: "is_digit (CHR ''0'')"
  by (simp add: is_digit_def)

lemma not_digit_point: "\<not> is_digit (CHR ''.'')"
  by (simp add: is_digit_def)

lemma two_decimals_split:
  assumes a: "a \<noteq> []" "list_all is_digit a" and b: "length b = 2" "list_all is_digit b"
    and v: "digits_val (a @ b) = \<lfloor>\<bar>q\<bar> * 100 + 1 / 2\<rfloor>"
  shows "two_decimals q ((if q < 0 then ''-'' else '''') @ a @ ''.'' @ b)"
proof -
  have tw: "takeWhile is_digit (a @ CHR ''.'' # b) = a"
    using a(2) not_digit_point by (simp add: takeWhile_append2 list_all_iff)
  have dw: "dropWhile is_digit (a @ CHR ''.'' # b) = CHR ''.'' # b"
    using a(2) not_digit_point by (simp add: dropWhile_append2 list_all_iff)
  show ?thesis
    using a b v by (simp add: two_decimals_def tw dw)
qed

lemma toFixed2_two_decimals:
  assumes "\<bar>q\<bar> < 10 ^ 21"
  shows "two_decimals q (toFixed2 (Fin q))"
proof -
  define n where "n = \<lfloor>\<bar>q\<bar> * 100 + 1 / 2\<rfloor>"
  define m where "m = decimal n"
  define m' where "m' = (if length m \<le> 2 then replicate (3 - length m) (CHR ''0'') @ m else m)"
  have n0: "0 \<le> n" unfolding n_def by simp
  from decimal_props [OF n0]
  have m: "m \<noteq> []" "list_all is_digit m" "digits_val m = n" unfolding m_def by simp_all
  have len: "3 \<le> length m'" unfolding m'_def using m(1) by (cases m) auto
  have dig: "list_all is_digit m'"
    unfolding m'_def using m(2) is_digit_zero by (simp add: list_all_iff)
  have val: "digits_val m' = n"
    unfolding m'_def using m(3) by (simp add: digits_val_zeros)
  define a where "a = take (length m' - 2) m'"
  define b where "b = drop (length m' - 2) m'"
  have ab: "a @ b = m'" unfolding a_def b_def by simp
  have a: "a \<noteq> []" "list_all is_digit a"
    unfolding a_def using len dig by (auto simp: list_all_iff dest: in_set_takeD)
  have b: "length b = 2" "list_all is_digit b"
    unfolding b_def using len dig by (auto simp: list_all_iff dest: in_set_dropD)
  have "toFixed2 (Fin q) = (if q < 0 then ''-'' else '''') @ a @ ''.'' @ b"
    using assms by (simp add: toFixed2_def Let_def n_def m_def m'_def a_def b_def)
  moreover have "two_decimals q ((if q < 0 then ''-'' else '''') @ a @ ''.'' @ b)"
    using a b by (rule two_decimals_split) (simp add: ab val n_def)
  ultimately show ?thesis by simp
qed

subsection \<open>Normalising twice\<close>

text \<open>A node that has been normalised is returned by the normalisation as it is.\<close>

lemma normalised_fixed:
  assumes dur: "\<And>n. map_of ps ''duration'' \<noteq> Some (JNum n)"
    and name: "\<exists>v. map_of ps ''name'' = Some v \<and> truthy v"
    and kids: "\<And>cs. map_of ps ''children'' = Some (JArr cs) \<Longrightarrow> processNodes cs = Inr cs"
  shows "processNode (JObj ps) = Inr (JObj ps)"
proof -
  define ps1 where "ps1 = (case map_of ps ''duration'' of
                   Some (JNum n) \<Rightarrow> AList.update ''duration'' (JStr (toFixed2 n @ ''ms'')) ps
                 | _ \<Rightarrow> ps)"
  define ps2 where "ps2 = (if (case map_of ps1 ''name'' of Some v \<Rightarrow> truthy v | None \<Rightarrow> False) then ps1
                 else AList.update ''name'' (JStr ''Unnamed Node'') ps1)"
  have r: "processNode (JObj ps) =
     (case map_of ps2 ''children'' of
           Some (JArr cs) \<Rightarrow>
             (case processNodes cs of
                Inl e \<Rightarrow> Inl e
              | Inr cs' \<Rightarrow> Inr (JObj (AList.update ''children'' (JArr cs') ps2)))
         | _ \<Rightarrow> Inr (JObj ps2))"
    unfolding ps1_def ps2_def by (simp add: Let_def)
  have p1: "ps1 = ps"
    unfolding ps1_def using dur by (auto split: option.splits json.splits)
  have p2: "ps2 = ps"
    unfolding ps2_def p1 using name by auto
  show ?thesis
  proof (cases "\<exists>cs. map_of ps ''children'' = Some (JArr cs)")
    case True
    then obtain cs where c: "map_of ps ''children'' = Some (JArr cs)" by blast
    from kids [OF c] c show ?thesis
      unfolding r p2 by (simp add: update_triv)
  next
    case False
    then show ?thesis
      unfolding r p2 by (auto split: option.splits json.splits)
  qed
qed

lemma processNode_idempotent:
  "processNode x = Inr y \<Longrightarrow> processNode y = Inr y"
  "processNodes xs = Inr ys \<Longrightarrow> processNodes ys = Inr ys"
proof (induction x and xs arbitrary: y and ys rule: processNode_processNodes.induct)
  case (1 ps)
  define ps1 where "ps1 = (case map_of ps ''duration'' of
                   Some (JNum n) \<Rightarrow> AList.update ''duration'' (JStr (toFixed2 n @ ''ms'')) ps
                 | _ \<Rightarrow> ps)"
  define ps2 where "ps2 = (if (case map_of ps1 ''name'' of Some v \<Rightarrow> truthy v | None \<Rightarrow> False) then ps1
                 else AList.update ''name'' (JStr ''Unnamed Node'') ps1)"
  have d1: "\<And>n. map_of ps1 ''duration'' \<noteq> Some (JNum n)"
    unfolding ps1_def by (auto simp: update_conv' split: option.splits json.splits)
  have d2: "\<And>n. map_of ps2 ''duration'' \<noteq> Some (JNum n)"
    unfolding ps2_def using d1 by (auto simp: update_conv')
  have n2: "\<exists>v. map_of ps2 ''name'' = Some v \<and> truthy v"
    unfolding ps2_def by (auto simp: update_conv' split: option.splits)
  have r: "processNode (JObj ps) =
     (case map_of ps2 ''children'' of
           Some (JArr cs) \<Rightarrow>
             (case processNodes cs of
                Inl e \<Rightarrow> Inl e
              | Inr cs' \<Rightarrow> Inr (JObj (AList.update ''children'' (JArr cs') ps2)))
         | _ \<Rightarrow> Inr (JObj ps2))"
    unfolding ps1_def ps2_def by (simp add: Let_def)
  show ?case
  proof (cases "\<exists>cs. map_of ps2 ''children'' = Some (JArr cs)")
    case True
    then obtain cs where c: "map_of ps2 ''children'' = Some (JArr cs)" by blast
    with r "1.prems" obtain cs' where cs': "processNodes cs = Inr cs'"
      and y: "y = JObj (AList.update ''children'' (JArr cs') ps2)"
      by (auto split: sum.splits)
    from "1.IH" [OF ps1_def ps2_def c refl cs'] have ih: "processNodes cs' = Inr cs'" .
    let ?ps3 = "AList.update ''children'' (JArr cs') ps2"
    have "processNode (JObj ?ps3) = Inr (JObj ?ps3)"
    proof (rule normalised_fixed)
      show "\<And>n. map_of ?ps3 ''duration'' \<noteq> Some (JNum n)"
        using d2 by (simp add: update_conv')
      show "\<exists>v. map_of ?ps3 ''name'' = Some v \<and> truthy v"
        using n2 by (simp add: update_conv')
      show "\<And>cs. map_of ?ps3 ''children'' = Some (JArr cs) \<Longrightarrow> processNodes cs = Inr cs"
        using ih by (simp add: update_conv')
    qed
    then show ?thesis using y by simp
  next
    case False
    with r "1.prems" have y: "y = JObj ps2"
      by (auto split: option.splits json.splits)
    have "processNode (JObj ps2) = Inr (JObj ps2)"
      by (rule normalised_fixed) (use d2 n2 False in auto)
    then show ?thesis using y by simp
  qed
next
  case (8 x xs)
  then show ?case by (auto split: sum.splits)
qed auto

text \<open>The children of a node are normalised one by one, in order.\<close>

lemma processNodes_elementwise:
  "processNodes cs = Inr cs' \<Longrightarrow>
   length cs' = length cs \<and> (\<forall>i < length cs. processNode (cs ! i) = Inr (cs' ! i))"
proof (induction cs arbitrary: cs')
  case Nil
  then show ?case by simp
next
  case (Cons c cs)
  from Cons.prems obtain y ys where y: "processNode c = Inr y" and ys: "processNodes cs = Inr ys"
    and e: "cs' = y # ys"
    by (auto split: sum.splits)
  from Cons.IH [OF ys] have "length ys = length cs"
    and "\<forall>i < length cs. processNode (cs ! i) = Inr (ys ! i)"
    by simp_all
  then show ?case using y e by (auto simp add: nth_Cons split: nat.splits)
qed

lemma processNode_children:
  assumes "processNode (JObj ps) = Inr (JObj ps')"
    and "map_of ps ''children'' = Some (JArr cs)"
  shows "\<exists>cs'. processNodes cs = Inr cs' \<and> map_of ps' ''children'' = Some (JArr cs')"
proof -
  define ps1 where "ps1 = (case map_of ps ''duration'' of
                   Some (JNum n) \<Rightarrow> AList.update ''duration'' (JStr (toFixed2 n @ ''ms'')) ps
                 | _ \<Rightarrow> ps)"
  define ps2 where "ps2 = (if (case map_of ps1 ''name'' of Some v \<Rightarrow> truthy v | None \<Rightarrow> False) then ps1
                 else AList.update ''name'' (JStr ''Unnamed Node'') ps1)"
  have "map_of ps1 ''children'' = map_of ps ''children''"
    unfolding ps1_def by (auto simp: update_conv' split: option.splits json.splits)
  moreover have "map_of ps2 ''children'' = map_of ps1 ''children''"
    unfolding ps2_def by (auto simp: update_conv')
  ultimately have c: "map_of ps2 ''children'' = Some (JArr cs)" using assms(2) by simp
  have r: "processNode (JObj ps) =
     (case map_of ps2 ''children'' of
           Some (JArr cs) \<Rightarrow>
             (case processNodes cs of
                Inl e \<Rightarrow> Inl e
              | Inr cs' \<Rightarrow> Inr (JObj (AList.update ''children'' (JArr cs') ps2)))
         | _ \<Rightarrow> Inr (JObj ps2))"
    unfolding ps1_def ps2_def by (simp add: Let_def)
  from r c assms(1) obtain cs' where cs': "processNodes cs = Inr cs'"
    and p: "ps' = AList.update ''children'' (JArr cs') ps2"
    by (auto split: sum.splits)
  have "map_of ps' ''children'' = Some (JArr cs')" unfolding p by (simp add: update_conv')
  with cs' show ?thesis by blast
qed

subsection \<open>Numeric durations\<close>

text \<open>
  C9, as stated: every numeric duration \<open>n\<close> is replaced by \<open>n\<close> rendered to exactly
  two decimal places, followed by \<open>ms\<close>. From \<open>10^21\<close> on the host's \<open>toFixed\<close>
  prints exponent notation: the duration \<open>1e21\<close> becomes \<open>1e+21ms\<close>.
\<close>

theorem processNode_huge_counterexample:
  "processNode (JObj [(''duration'', JNum (Fin (10 ^ 21)))]) =
     Inr (JObj [(''duration'', JStr ''1e+21ms''), (''name'', JStr ''Unnamed Node'')])
   \<and> \<not> two_decimals (10 ^ 21) ''1e+21''"
  by code_simp

text \<open>
  C9, amended: when a node is normalised, a duration that is a finite number \<open>n\<close> of
  magnitude below \<open>10^21\<close> is replaced by the string of \<open>n\<close> rendered to exactly two
  decimal places followed by \<open>ms\<close>; a duration that is already a string is left as it
  is; and normalising the normalised node again returns it unchanged. The children of the
  node are normalised in the same way, each by \<open>processNode\<close>, so this holds at every
  depth of the tree.
\<close>

theorem processNode_duration:
  assumes "processNode (JObj ps) = Inr r"
  shows "\<exists>ps'. r = JObj ps'
     \<and> (\<forall>q. map_of ps ''duration'' = Some (JNum (Fin q)) \<and> \<bar>q\<bar> < 10 ^ 21 \<longrightarrow>
            map_of ps' ''duration'' = Some (JStr (toFixed2 (Fin q) @ ''ms''))
            \<and> two_decimals q (toFixed2 (Fin q)))
     \<and> (\<forall>s. map_of ps ''duration'' = Some (JStr s) \<longrightarrow> map_of ps' ''duration'' = Some (JStr s))
     \<and> processNode r = Inr r
     \<and> (\<forall>cs. map_of ps ''children'' = Some (JArr cs) \<longrightarrow>
          (\<exists>cs'. map_of ps' ''children'' = Some (JArr cs') \<and> length cs' = length cs
             \<and> (\<forall>i < length cs. processNode (cs ! i) = Inr (cs' ! i))))"
proof -
  from processNode_properties [OF assms] obtain ps' where
    r: "r = JObj ps'" and
    d: "map_of ps' ''duration'' =
               (case map_of ps ''duration'' of
                  Some (JNum n) \<Rightarrow> Some (JStr (toFixed2 n @ ''ms''))
                | d \<Rightarrow> d)"
    by blast
  have g1: "\<forall>q. map_of ps ''duration'' = Some (JNum (Fin q)) \<and> \<bar>q\<bar> < 10 ^ 21 \<longrightarrow>
            map_of ps' ''duration'' = Some (JStr (toFixed2 (Fin q) @ ''ms''))
            \<and> two_decimals q (toFixed2 (Fin q))"
    using d toFixed2_two_decimals by simp
  have g2: "\<forall>s. map_of ps ''duration'' = Some (JStr s) \<longrightarrow> map_of ps' ''duration'' = Some (JStr s)"
    using d by simp
  have g3: "processNode r = Inr r"
    using assms by (rule processNode_idempotent(1))
  have g4: "\<forall>cs. map_of ps ''children'' = Some (JArr cs) \<longrightarrow>
          (\<exists>cs'. map_of ps' ''children'' = Some (JArr cs') \<and> length cs' = length cs
             \<and> (\<forall>i < length cs. processNode (cs ! i) = Inr (cs' ! i)))"
  proof (intro allI impI)
    fix cs
    assume c: "map_of ps ''children'' = Some (JArr cs)"
    from assms r have "processNode (JObj ps) = Inr (JObj ps')" by simp
    from processNode_children [OF this c] obtain cs' where
      cs': "processNodes cs = Inr cs'" and m: "map_of ps' ''children'' = Some (JArr cs')"
      by blast
    from processNodes_elementwise [OF cs'] m
    show "\<exists>cs'. map_of ps' ''children'' = Some (JArr cs') \<and> length cs' = length cs
             \<and> (\<forall>i < length cs. processNode (cs ! i) = Inr (cs' ! i))"
      by blast
  qed
  from r g1 g2 g3 g4 show ?thesis by blast
qed

text \<open>
  The numeric duration 12.5 becomes \<open>12.50ms\<close>, which is displayed as it is with no
  severity, and the duration 0.5 of the child becomes \<open>0.50ms\<close>; normalising the result
  again returns it unchanged.
\<close>

theorem processNode_duration_witness:
  "processNode
     (JObj [(''title'', JStr ''a''), (''duration'', JNum (Fin (25 / 2))),
            (''children'', JArr [JObj [(''title'', JStr ''b''), (''duration'', JNum (Fin (1 / 2)))]])]) =
     Inr (JObj [(''title'', JStr ''a''), (''duration'', JStr ''12.50ms''),
                (''children'',
                 JArr [JObj [(''title'', JStr ''b''), (''duration'', JStr ''0.50ms''),
                             (''name'', JStr ''Unnamed Node'')]]),
                (''name'', JStr ''Unnamed Node'')])
   \<and> two_decimals (25 / 2) ''12.50''
   \<and> processNode
       (JObj [(''title'', JStr ''a''), (''duration'', JStr ''12.50ms''),
                (''children'',
                 JArr [JObj [(''title'', JStr ''b''), (''duration'', JStr ''0.50ms''),
                             (''name'', JStr ''Unnamed Node'')]]),
                (''name'', JStr ''Unnamed Node'')]) =
     Inr (JObj [(''title'', JStr ''a''), (''duration'', JStr ''12.50ms''),
                (''children'',
                 JArr [JObj [(''title'', JStr ''b''), (''duration'', JStr ''0.50ms''),
                             (''name'', JStr ''Unnamed Node'')]]),
                (''name'', JStr ''Unnamed Node'')])
   \<and> formatDuration (Some ''12.50ms'') = \<lparr>text_str = ''12.50ms'', className = tier_class SevNone\<rparr>"
proof -
  let ?ps = "[(''title'', JStr ''a''), (''duration'', JNum (Fin (25 / 2))),
            (''children'', JArr [JObj [(''title'', JStr ''b''), (''duration'', JNum (Fin (1 / 2)))]])]"
  let ?r = "JObj [(''title'', JStr ''a''), (''duration'', JStr ''12.50ms''),
                (''children'',
                 JArr [JObj [(''title'', JStr ''b''), (''duration'', JStr ''0.50ms''),
                             (''name'', JStr ''Unnamed Node'')]]),
                (''name'', JStr ''Unnamed Node'')]"
  have a: "processNode (JObj ?ps) = Inr ?r" by code_simp
  have b: "map_of ?ps ''duration'' = Some (JNum (Fin (25 / 2)))" by simp
  have c: "\<bar>25 / 2 :: rat\<bar> < 10 ^ 21" by simp
  have d: "toFixed2 (Fin (25 / 2)) = ''12.50''" by code_simp
  from processNode_duration [OF a] b c
  have "two_decimals (25 / 2) (toFixed2 (Fin (25 / 2)))" and f: "processNode ?r = Inr ?r"
    by blast+
  then have e: "two_decimals (25 / 2) ''12.50''" unfolding d by simp
  have g: "formatDuration (Some ''12.50ms'') =
      \<lparr>text_str = ''12.50ms'', className = tier_class SevNone\<rparr>"
    by code_simp
  from a e f g show ?thesis by blast
qed


section \<open>Properties of the display handler\<close>

text \<open>
  C8: when the pasted input is not valid JSON, that is when the host's \<open>JSON.parse\<close>
  throws on it, the handler ends with the tree data empty, the error flag set, the error
  message set and the loading flag cleared, whatever the state was before; it returns a
  state (nothing is thrown past it), and the tab then shows the error message and no
  tree, neither part of a new one nor the one shown before.
\<close>

theorem handleDisplay_invalid_json:
  assumes "JSON_parse (inputValue st) = Inl e"
  shows "handleDisplay JSON_parse st =
           st\<lparr>parsedData := [], showError := True,
              errorMessage := ''Error parsing JSON data. Please check your input and try again.'',
              loading := False\<rparr>
         \<and> CustomTabContent_result (handleDisplay JSON_parse st) sts =
             [ErrorBox ''Error parsing JSON data. Please check your input and try again.'']"
proof -
  have h: "handleDisplay JSON_parse st =
           st\<lparr>parsedData := [], showError := True,
              errorMessage := ''Error parsing JSON data. Please check your input and try again.'',
              loading := False\<rparr>"
    using assms by (simp add: handleDisplay_def)
  show ?thesis unfolding h by (simp add: CustomTabContent_result_def)
qed

text \<open>
  The input \<open>{not json\<close>, pasted while a tree from an earlier input is shown, with a
  host that rejects it.
\<close>

theorem handleDisplay_invalid_json_witness:
  "handleDisplay (\<lambda>s. Inl SyntaxError)
     \<lparr>inputValue = ''{not json'', urlValue = '''',
      parsedData = [JObj [(''title'', JStr ''old''), (''duration'', JStr ''1s'')]],
      expandAll_custom = True, showError = False, errorMessage = '''', loading = False\<rparr> =
     \<lparr>inputValue = ''{not json'', urlValue = '''', parsedData = [],
      expandAll_custom = True, showError = True,
      errorMessage = ''Error parsing JSON data. Please check your input and try again.'',
      loading = False\<rparr>
   \<and> CustomTabContent_result
       (handleDisplay (\<lambda>s. Inl SyntaxError)
          \<lparr>inputValue = ''{not json'', urlValue = '''',
           parsedData = [JObj [(''title'', JStr ''old''), (''duration'', JStr ''1s'')]],
           expandAll_custom = True, showError = False, errorMessage = '''', loading = False\<rparr>)
       [NodeState True (Some True) []] =
     [ErrorBox ''Error parsing JSON data. Please check your input and try again.'']"
proof -
  let ?st = "\<lparr>inputValue = ''{not json'', urlValue = '''',
      parsedData = [JObj [(''title'', JStr ''old''), (''duration'', JStr ''1s'')]],
      expandAll_custom = True, showError = False, errorMessage = '''', loading = False\<rparr>"
  from handleDisplay_invalid_json [where JSON_parse = "\<lambda>s. Inl SyntaxError" and st = ?st
      and e = SyntaxError and sts = "[NodeState True (Some True) []]"]
  show ?thesis by (simp add: CustomTabContent_result_def)
qed

text \<open>
  The same end state follows when the input is valid JSON that the normalisation cannot
  take, such as \<open>null\<close> or a number where a node is expected.
\<close>

lemma handleDisplay_not_a_node:
  assumes "JSON_parse (inputValue st) = Inr data"
    and "data = JNull \<or> data = JBool b \<or> data = JNum n \<or> data = JStr s"
  shows "handleDisplay JSON_parse st =
           st\<lparr>parsedData := [], showError := True,
              errorMessage := ''Error parsing JSON data. Please check your input and try again.'',
              loading := False\<rparr>"
  using assms by (auto simp add: handleDisplay_def)

section \<open>Properties of the tree view\<close>

lemma length_TreeNodes: "length (TreeNodes cs level ea ks) = length cs"
  by (induction cs arbitrary: ks) (case_tac ks; simp)+

lemma nth_TreeNodes:
  "i < length cs \<Longrightarrow>
   TreeNodes cs level ea ks ! i =
     TreeNode (cs ! i) level ea (if i < length ks then ks ! i else mounted)"
proof (induction cs arbitrary: ks i)
  case Nil
  then show ?case by simp
next
  case (Cons c cs)
  show ?case
  proof (cases ks)
    case Nil
    then show ?thesis using Cons by (cases i) simp_all
  next
    case (Cons k ks')
    then show ?thesis using Cons.IH [of _ ks'] Cons.prems by (cases i) simp_all
  qed
qed

text \<open>
  C5, as stated: the expand-all button is rendered only when the view is not loading and
  has items. The button is rendered before the content in every case: here with the
  loading indicator, and with the empty-state indicator.
\<close>

theorem TreeViewContent_button_counterexample:
  "TreeViewContent [] True False [] = [Button ''Expand All'', LoadingIndicator]
   \<and> TreeViewContent [] False False [] = [Button ''Expand All'', NoData]"
  by (simp add: TreeViewContent_def)

text \<open>
  C5, amended: \<open>TreeViewContent\<close> always renders the expand-all toggle button, labelled
  \<open>Collapse All\<close> when the expand-all flag is true and \<open>Expand All\<close> when it is false,
  and after it: the loading indicator while the loading flag is set; otherwise the
  empty-state indicator if the item sequence is empty; otherwise one \<open>TreeNode\<close> per
  top-level item, in order, each at level 0 and receiving the current expand-all value.
\<close>

theorem TreeViewContent_precedence:
  "\<exists>content.
     TreeViewContent data isLoading ea sts =
       [Button (if ea then ''Collapse All'' else ''Expand All''), content]
     \<and> (isLoading \<longrightarrow> content = LoadingIndicator)
     \<and> (\<not> isLoading \<and> data = [] \<longrightarrow> content = NoData)
     \<and> (\<not> isLoading \<and> data \<noteq> [] \<longrightarrow>
          (\<exists>views. content = NodeList views \<and> length views = length data
             \<and> (\<forall>i < length data.
                   views ! i =
                     TreeNode (data ! i) 0 ea (if i < length sts then sts ! i else mounted))))"
  by (simp add: TreeViewContent_def length_TreeNodes nth_TreeNodes)

theorem TreeViewContent_precedence_witness:
  "TreeViewContent [TreeItem (Some ''a'') (Some ''33.17s'') None] True True [] =
     [Button ''Collapse All'', LoadingIndicator]
   \<and> TreeViewContent [] False True [] = [Button ''Collapse All'', NoData]
   \<and> TreeViewContent [TreeItem (Some ''a'') (Some ''33.17s'') None] False False [mounted] =
     [Button ''Expand All'',
      NodeList [NodeView None ''default'' 0 None (Some ''a'')
                  \<lparr>text_str = ''33.17s'', className = ''text-red-600 font-bold''\<rparr> None]]"
proof -
  let ?d = "[TreeItem (Some ''a'') (Some ''33.17s'') None]"
  from TreeViewContent_precedence [of ?d True True "[]"]
  have a: "TreeViewContent ?d True True [] = [Button ''Collapse All'', LoadingIndicator]"
    by auto
  from TreeViewContent_precedence [of "[]" False True "[]"]
  have b: "TreeViewContent [] False True [] = [Button ''Collapse All'', NoData]"
    by auto
  have f: "formatDuration (Some ''33.17s'') =
      \<lparr>text_str = ''33.17s'', className = ''text-red-600 font-bold''\<rparr>"
    by code_simp
  have c: "TreeViewContent ?d False False [mounted] =
     [Button ''Expand All'',
      NodeList [NodeView None ''default'' 0 None (Some ''a'')
                  \<lparr>text_str = ''33.17s'', className = ''text-red-600 font-bold''\<rparr> None]]"
    by (simp add: TreeViewContent_def mounted_def f)
  from a b c show ?thesis by blast
qed

subsection \<open>Expandable nodes and leaves\<close>

lemma click_row_leaf: "\<not> hasChildren item \<Longrightarrow> click_row item level ea st = st"
  by (cases item; cases st) (auto simp add: click_row_def)

lemma click_at_leaf:
  "item_at items path = Some item \<Longrightarrow> \<not> hasChildren item \<Longrightarrow>
   click_at path items level ea sts = sts"
proof (induction path arbitrary: items level sts)
  case Nil
  then show ?case by simp
next
  case (Cons i path)
  show ?case
  proof (cases "i < length items \<and> i < length sts")
    case False
    then show ?thesis by auto
  next
    case True
    show ?thesis
    proof (cases "path = []")
      case True
      with Cons.prems \<open>i < length items \<and> i < length sts\<close> have "items ! i = item"
        by simp
      then show ?thesis using True Cons.prems(2) by (simp add: click_row_leaf)
    next
      case False
      show ?thesis
      proof (cases "children (items ! i)")
        case None
        then show ?thesis using False by simp
      next
        case (Some cs)
        with Cons.prems(1) True False have "item_at cs path = Some item" by simp
        from Cons.IH [OF this Cons.prems(2)]
        have "click_at path cs (level + 1) ea (kids (sts ! i)) = kids (sts ! i)" .
        then show ?thesis using Some False by simp
      qed
    qed
  qed
qed

text \<open>
  C7: a node whose children sequence is not empty is rendered as expandable: its row has
  the chevron and the click handler, and a click on the row toggles its expansion state.
  A node whose children sequence is empty or absent has neither chevron nor click
  handler and renders nothing below its row, and a click on its row changes no state,
  neither its own nor any other of the view. Both hold at every level, for every value of
  the expand-all signal and in every state of the instance.
\<close>

theorem TreeNode_expandable_iff_children:
  "(hasChildren item \<longrightarrow>
      chevron (TreeNode item level ea st) = Some (expanded st)
      \<and> row_onClick (TreeNode item level ea st) = Some ToggleExpand
      \<and> click_row item level ea st = NodeState (\<not> expanded st) (seen st) (kids st))
   \<and> (\<not> hasChildren item \<longrightarrow>
      chevron (TreeNode item level ea st) = None
      \<and> row_onClick (TreeNode item level ea st) = None
      \<and> nested (TreeNode item level ea st) = None
      \<and> click_row item level ea st = st
      \<and> (item_at items path = Some item \<longrightarrow> click_node items path tv = tv))
   \<and> (hasChildren item \<longleftrightarrow> (\<exists>cs. children item = Some cs \<and> cs \<noteq> []))"
proof (cases item)
  case (TreeItem t d co)
  show ?thesis
  proof (cases st)
    case (NodeState ex sn ks)
    have leaf: "\<not> hasChildren item \<and> item_at items path = Some item \<longrightarrow>
        click_node items path tv = tv"
      using click_at_leaf [of items path item 0 "expandAll tv" "instances tv"]
      by (simp add: click_node_def)
    show ?thesis
      using leaf unfolding TreeItem NodeState
      by (cases co) (auto simp add: click_row_def)
  qed
qed

theorem TreeNode_expandable_iff_children_witness:
  "hasChildren (TreeItem (Some ''a'') (Some ''1s'') (Some [TreeItem (Some ''b'') None None]))
   \<and> click_row (TreeItem (Some ''a'') (Some ''1s'') (Some [TreeItem (Some ''b'') None None]))
        0 False (NodeState False (Some False) []) = NodeState True (Some False) []
   \<and> \<not> hasChildren (TreeItem (Some ''b'') None (Some []))
   \<and> row_onClick (TreeNode (TreeItem (Some ''b'') None (Some [])) 1 True
        (NodeState True (Some True) [])) = None
   \<and> chevron (TreeNode (TreeItem (Some ''b'') None (Some [])) 1 True
        (NodeState True (Some True) [])) = None
   \<and> click_row (TreeItem (Some ''b'') None (Some [])) 1 True (NodeState True (Some True) []) =
       NodeState True (Some True) []
   \<and> click_row (TreeItem (Some ''b'') None None) 1 True (NodeState True (Some True) []) =
       NodeState True (Some True) []"
proof -
  let ?a = "TreeItem (Some ''a'') (Some ''1s'') (Some [TreeItem (Some ''b'') None None])"
  let ?b = "TreeItem (Some ''b'') None (Some [])"
  let ?c = "TreeItem (Some ''b'') None None"
  have ha: "hasChildren ?a" and hb: "\<not> hasChildren ?b" and hc: "\<not> hasChildren ?c" by simp_all
  from TreeNode_expandable_iff_children [of ?a 0 False "NodeState False (Some False) []"] ha
  have a: "click_row ?a 0 False (NodeState False (Some False) []) = NodeState True (Some False) []"
    by simp
  from TreeNode_expandable_iff_children [of ?b 1 True "NodeState True (Some True) []"] hb
  have b: "row_onClick (TreeNode ?b 1 True (NodeState True (Some True) [])) = None"
    "chevron (TreeNode ?b 1 True (NodeState True (Some True) [])) = None"
    "click_row ?b 1 True (NodeState True (Some True) []) = NodeState True (Some True) []"
    by blast+
  from TreeNode_expandable_iff_children [of ?c 1 True "NodeState True (Some True) []"] hc
  have c: "click_row ?c 1 True (NodeState True (Some True) []) = NodeState True (Some True) []"
    by blast
  from ha hb a b c show ?thesis by blast
qed


subsection \<open>Render passes and the expand-all signal\<close>

lemma render_pass_node:
  "render_pass v (TreeItem t d co) (NodeState ex sn ks) =
     NodeState (if sn = Some v then ex else v) (Some v)
       (case co of
          None \<Rightarrow> []
        | Some cs \<Rightarrow> if ex \<and> cs \<noteq> [] then render_pass_list v cs ks else [])"
  by (cases co) (simp_all add: render_pass_def render_pass_list_def)

lemma render_pass_list_simps:
  "render_pass_list v [] ks = []"
  "render_pass_list v (c # cs) [] = render_pass v c mounted # render_pass_list v cs []"
  "render_pass_list v (c # cs) (k # ks) = render_pass v c k # render_pass_list v cs ks"
  by (simp_all add: render_pass_def render_pass_list_def)

lemma length_render_pass_list: "length (render_pass_list v cs ks) = length cs"
  by (induction cs arbitrary: ks) (case_tac ks; simp add: render_pass_list_simps)+

lemma every_mounted: "P False None \<Longrightarrow> every P mounted"
  by (simp add: mounted_def)

text \<open>A pass sets every instance whose effect is due, the ones it mounts included.\<close>

lemma pass_sets:
  "every (\<lambda>ex sn. sn \<noteq> Some v) st \<Longrightarrow>
     every (\<lambda>ex sn. ex = v \<and> sn = Some v) (render_pass v item st)"
  "list_all (every (\<lambda>ex sn. sn \<noteq> Some v)) ks \<Longrightarrow>
     list_all (every (\<lambda>ex sn. ex = v \<and> sn = Some v)) (render_pass_list v items ks)"
proof (induction item st and items ks rule: reconcile_reconcile_list.induct)
  case (1 t d co ex sn ks)
  then show ?case by (cases co) (auto simp add: render_pass_node)
next
  case (2 ks)
  show ?case by (simp add: render_pass_list_simps)
next
  case (3 c cs)
  have "every (\<lambda>ex sn. sn \<noteq> Some v) mounted" by (simp add: every_mounted)
  with 3 show ?case by (simp add: render_pass_list_simps)
next
  case (4 c cs k ks)
  then show ?case by (simp add: render_pass_list_simps)
qed

text \<open>After a pass, every instance has run its effect with the value of that pass.\<close>

lemma pass_observed:
  "every (\<lambda>ex sn. sn = Some v) (render_pass v item st)"
  "list_all (every (\<lambda>ex sn. sn = Some v)) (render_pass_list v items ks)"
proof (induction item st and items ks rule: reconcile_reconcile_list.induct)
  case (1 t d co ex sn ks)
  then show ?case by (cases co) (auto simp add: render_pass_node)
qed (simp_all add: render_pass_list_simps)

text \<open>An instance that has the value of the signal keeps it in a pass.\<close>

lemma pass_keeps:
  "every (\<lambda>ex sn. ex = v \<and> sn = Some v) st \<Longrightarrow>
     every (\<lambda>ex sn. ex = v \<and> sn = Some v) (render_pass v item st)"
  "list_all (every (\<lambda>ex sn. ex = v \<and> sn = Some v)) ks \<Longrightarrow>
     list_all (every (\<lambda>ex sn. ex = v \<and> sn = Some v)) (render_pass_list v items ks)"
proof (induction item st and items ks rule: reconcile_reconcile_list.induct)
  case (1 t d co ex sn ks)
  then show ?case by (cases co) (auto simp add: render_pass_node)
next
  case (2 ks)
  show ?case by (simp add: render_pass_list_simps)
next
  case (3 c cs)
  have "every (\<lambda>ex sn. ex = v \<and> sn = Some v) (render_pass v c mounted)"
    using pass_sets(1) [of v mounted c] by (simp add: every_mounted)
  with 3 show ?case by (simp add: render_pass_list_simps)
next
  case (4 c cs k ks)
  then show ?case by (simp add: render_pass_list_simps)
qed

subsubsection \<open>Repeated passes\<close>

lemma funpow_render_pass_list_Nil: "0 < n \<Longrightarrow> (render_pass_list v [] ^^ n) ks = []"
  by (cases n) (simp_all add: render_pass_list_simps)

lemma funpow_render_pass_list_Cons:
  "(render_pass_list v (c # cs) ^^ n) (k # ks) =
     (render_pass v c ^^ n) k # (render_pass_list v cs ^^ n) ks"
  by (induction n arbitrary: k ks) (simp_all add: funpow_swap1 render_pass_list_simps)

lemma funpow_render_pass_list_mount:
  "0 < n \<Longrightarrow>
   (render_pass_list v (c # cs) ^^ n) [] =
     (render_pass v c ^^ n) mounted # (render_pass_list v cs ^^ n) []"
proof -
  assume "0 < n"
  then obtain m where n: "n = Suc m" by (cases n) auto
  show ?thesis
    unfolding n
    by (simp add: funpow_swap1 render_pass_list_simps funpow_render_pass_list_Cons)
qed

lemma funpow_expanded_node:
  assumes "cs \<noteq> []"
  shows "(render_pass True (TreeItem t d (Some cs)) ^^ n) (NodeState True (Some True) ks) =
           NodeState True (Some True) ((render_pass_list True cs ^^ n) ks)"
  using assms by (induction n arbitrary: ks) (simp_all add: funpow_swap1 render_pass_node)

lemma height_child: "c \<in> set cs \<Longrightarrow> height c \<le> foldr max (map height cs) 0"
  by (induction cs) auto

text \<open>
  With the signal set, repeated passes mount and expand a tree level by level: one pass
  for each level below the node, one more when the node itself has yet to take the
  signal.
\<close>

lemma passes_reach_full:
  "(every (\<lambda>ex sn. sn \<noteq> Some True) st \<and> height item + 2 \<le> n)
   \<or> (every (\<lambda>ex sn. ex = True \<and> sn = Some True) st \<and> height item + 1 \<le> n)
   \<Longrightarrow> (render_pass True item ^^ n) st = full item"
proof (induction item arbitrary: st n)
  case (TreeItem t d co)
  have settled: "(render_pass True (TreeItem t d co) ^^ m) st' = full (TreeItem t d co)"
    if st': "every (\<lambda>ex sn. ex = True \<and> sn = Some True) st'"
      and m: "height (TreeItem t d co) + 1 \<le> m" for st' m
  proof -
    obtain ks where s: "st' = NodeState True (Some True) ks" using st' by (cases st') auto
    from m obtain m' where m': "m = Suc m'" by (cases m) auto
    show ?thesis
    proof (cases "\<exists>cs. co = Some cs \<and> cs \<noteq> []")
      case False
      then have one: "render_pass True (TreeItem t d co) st'' = full (TreeItem t d co)"
        if "every (\<lambda>ex sn. ex = True \<and> sn = Some True) st''" for st''
        using that by (cases st''; cases co) (auto simp add: render_pass_node)
      have "(render_pass True (TreeItem t d co) ^^ j) (full (TreeItem t d co)) =
          full (TreeItem t d co)" for j
      proof (induction j)
        case 0
        show ?case by simp
      next
        case (Suc j)
        have "every (\<lambda>ex sn. ex = True \<and> sn = Some True) (full (TreeItem t d co))"
          using False by (cases co) auto
        from one [OF this] Suc show ?case by (simp add: funpow_swap1)
      qed
      then show ?thesis unfolding m' using one [OF st'] by (simp add: funpow_swap1)
    next
      case True
      then obtain cs where co: "co = Some cs" and cs: "cs \<noteq> []" by blast
      have ks: "list_all (every (\<lambda>ex sn. ex = True \<and> sn = Some True)) ks"
        using st' s by simp
      have hc: "height c + 2 \<le> m" if "c \<in> set cs" for c
        using height_child [OF that] m co cs by simp
      have kidsfull: "(render_pass_list True cs' ^^ m) ks' = map full cs'"
        if "set cs' \<subseteq> set cs"
          and "list_all (every (\<lambda>ex sn. ex = True \<and> sn = Some True)) ks'" for cs' ks'
        using that
      proof (induction cs' arbitrary: ks')
        case Nil
        from m' have "0 < m" by simp
        then show ?case by (simp add: funpow_render_pass_list_Nil del: funpow.simps)
      next
        case (Cons c cs')
        then have c: "c \<in> set cs" and sub: "set cs' \<subseteq> set cs" by simp_all
        show ?case
        proof (cases ks')
          case Nil
          have "every (\<lambda>ex sn. sn \<noteq> Some True) mounted" by (simp add: every_mounted)
          with hc [OF c] have "(render_pass True c ^^ m) mounted = full c"
            using TreeItem.IH [of cs c mounted m] co c by simp
          moreover have "(render_pass_list True cs' ^^ m) [] = map full cs'"
            using Cons.IH [OF sub, of "[]"] by simp
          moreover from m' have "0 < m" by simp
          ultimately show ?thesis
            unfolding Nil using funpow_render_pass_list_mount [of m True c cs'] by simp
        next
          case (Cons k ks'')
          with Cons.prems(2)
          have k: "every (\<lambda>ex sn. ex = True \<and> sn = Some True) k"
            and ks'': "list_all (every (\<lambda>ex sn. ex = True \<and> sn = Some True)) ks''"
            by simp_all
          from hc [OF c] have "height c + 1 \<le> m" by simp
          with k have "(render_pass True c ^^ m) k = full c"
            using TreeItem.IH [of cs c k m] co c by simp
          moreover have "(render_pass_list True cs' ^^ m) ks'' = map full cs'"
            using \<open>\<And>ks'. \<lbrakk>set cs' \<subseteq> set cs; list_all (every (\<lambda>ex sn. ex = True \<and> sn = Some True)) ks'\<rbrakk>
              \<Longrightarrow> (render_pass_list True cs' ^^ m) ks' = map full cs'\<close> [OF sub ks''] .
          ultimately show ?thesis
            unfolding Cons by (simp add: funpow_render_pass_list_Cons)
        qed
      qed
      have "(render_pass_list True cs ^^ m) ks = map full cs"
        using kidsfull [of cs ks] ks by simp
      then show ?thesis
        unfolding s co using funpow_expanded_node [OF cs, where t = t and d = d and n = m and ks = ks] by simp
    qed
  qed
  from TreeItem.prems show ?case
  proof
    assume a: "every (\<lambda>ex sn. sn \<noteq> Some True) st \<and> height (TreeItem t d co) + 2 \<le> n"
    then obtain m where n: "n = Suc m" by (cases n) auto
    from a have "every (\<lambda>ex sn. ex = True \<and> sn = Some True) (render_pass True (TreeItem t d co) st)"
      using pass_sets(1) [of True st "TreeItem t d co"] by simp
    moreover from a n have "height (TreeItem t d co) + 1 \<le> m" by simp
    ultimately have "(render_pass True (TreeItem t d co) ^^ m) (render_pass True (TreeItem t d co) st)
        = full (TreeItem t d co)"
      by (rule settled)
    then show ?thesis unfolding n by (simp add: funpow_swap1)
  next
    assume "every (\<lambda>ex sn. ex = True \<and> sn = Some True) st \<and> height (TreeItem t d co) + 1 \<le> n"
    then show ?thesis using settled by blast
  qed
qed

lemma heights_member: "c \<in> set items \<Longrightarrow> height c \<le> heights items"
  unfolding heights_def by (rule height_child)

lemma passes_reach_full_list:
  assumes "list_all (every (\<lambda>ex sn. sn \<noteq> Some True)) sts" and "heights items + 2 \<le> n"
  shows "(render_pass_list True items ^^ n) sts = map full items"
proof -
  from assms(2) have pos: "0 < n" by simp
  have "(render_pass_list True cs ^^ n) ks = map full cs"
    if "set cs \<subseteq> set items" and "list_all (every (\<lambda>ex sn. sn \<noteq> Some True)) ks" for cs ks
    using that
  proof (induction cs arbitrary: ks)
    case Nil
    show ?case using pos by (simp add: funpow_render_pass_list_Nil del: funpow.simps)
  next
    case (Cons c cs)
    then have c: "c \<in> set items" and sub: "set cs \<subseteq> set items" by simp_all
    from heights_member [OF c] assms(2) have h: "height c + 2 \<le> n" by simp
    show ?case
    proof (cases ks)
      case Nil
      have "every (\<lambda>ex sn. sn \<noteq> Some True) mounted" by (simp add: every_mounted)
      with h have "(render_pass True c ^^ n) mounted = full c"
        using passes_reach_full [of mounted c n] by simp
      moreover have "(render_pass_list True cs ^^ n) [] = map full cs"
        using Cons.IH [OF sub, of "[]"] by simp
      ultimately show ?thesis
        unfolding Nil using funpow_render_pass_list_mount [OF pos, of True c cs] by simp
    next
      case (Cons k ks')
      with Cons.prems(2) have k: "every (\<lambda>ex sn. sn \<noteq> Some True) k"
        and ks': "list_all (every (\<lambda>ex sn. sn \<noteq> Some True)) ks'"
        by simp_all
      from k h have "(render_pass True c ^^ n) k = full c"
        using passes_reach_full [of k c n] by simp
      moreover have "(render_pass_list True cs ^^ n) ks' = map full cs"
        using \<open>\<And>ks. \<lbrakk>set cs \<subseteq> set items; list_all (every (\<lambda>ex sn. sn \<noteq> Some True)) ks\<rbrakk>
          \<Longrightarrow> (render_pass_list True cs ^^ n) ks = map full cs\<close> [OF sub ks'] .
      ultimately show ?thesis
        unfolding Cons by (simp add: funpow_render_pass_list_Cons)
    qed
  qed
  from this [of items sts] assms(1) show ?thesis by simp
qed

text \<open>
  With the signal cleared, the pass after the one that sets the instances unmounts
  everything below the top-level nodes.
\<close>

lemma pass_collapses:
  "every (\<lambda>ex sn. ex = False \<and> sn = Some False) st \<Longrightarrow> render_pass False item st = collapsed"
  by (cases item; cases st) (auto simp add: render_pass_node collapsed_def split: option.splits)

lemma pass_collapses_mounted: "render_pass False item mounted = collapsed"
  by (cases item) (auto simp add: render_pass_node collapsed_def mounted_def split: option.splits)

lemma pass_collapses_list:
  "list_all (every (\<lambda>ex sn. ex = False \<and> sn = Some False)) ks \<Longrightarrow>
   render_pass_list False items ks = replicate (length items) collapsed"
proof (induction items arbitrary: ks)
  case Nil
  show ?case by (simp add: render_pass_list_simps)
next
  case (Cons c cs)
  show ?case
  proof (cases ks)
    case Nil
    then show ?thesis
      using Cons.IH [of "[]"] by (simp add: render_pass_list_simps pass_collapses_mounted)
  next
    case (Cons k ks')
    then show ?thesis
      using Cons.IH [of ks'] Cons.prems by (simp add: render_pass_list_simps pass_collapses)
  qed
qed

lemma passes_reach_collapsed_list:
  assumes "list_all (every (\<lambda>ex sn. sn \<noteq> Some False)) sts" and "2 \<le> n"
  shows "(render_pass_list False items ^^ n) sts = replicate (length items) collapsed"
proof -
  let ?f = "render_pass_list False items"
  let ?c = "replicate (length items) collapsed"
  have c: "list_all (every (\<lambda>ex sn. ex = False \<and> sn = Some False)) ?c"
    by (simp add: list_all_iff collapsed_def)
  have stable: "(?f ^^ m) ?c = ?c" for m
    by (induction m) (simp_all add: pass_collapses_list [OF c])
  from assms(2) obtain m where n: "n = Suc (Suc m)"
    by (metis One_nat_def Suc_1 Suc_le_D Suc_le_mono)
  have "list_all (every (\<lambda>ex sn. ex = False \<and> sn = Some False)) (?f sts)"
    using pass_sets(2) [OF assms(1)] by simp
  then have "?f (?f sts) = ?c" by (rule pass_collapses_list)
  then show ?thesis unfolding n using stable [of m] by (simp add: funpow_swap1)
qed

lemma funpow_rerender:
  "(rerender items ^^ n) tv =
     tv\<lparr>instances := (render_pass_list (expandAll tv) items ^^ n) (instances tv)\<rparr>"
  by (induction n) (simp_all add: rerender_def)

lemma every_mono:
  "(\<And>ex sn. P ex sn \<Longrightarrow> Q ex sn) \<Longrightarrow> every P st \<Longrightarrow> every Q st"
  by (induction st) (auto simp add: list_all_iff)

lemma every_list_mono:
  "(\<And>ex sn. P ex sn \<Longrightarrow> Q ex sn) \<Longrightarrow> list_all (every P) sts \<Longrightarrow> list_all (every Q) sts"
  using every_mono [of P Q] by (auto simp add: list_all_iff)

text \<open>A click on a row changes no \<open>seen\<close> value.\<close>

lemma list_all_update: "list_all P xs \<Longrightarrow> P y \<Longrightarrow> list_all P (xs[i := y])"
  by (induction xs arbitrary: i) (auto split: nat.splits)

lemma click_at_observed:
  "list_all (every (\<lambda>ex sn. Q sn)) sts \<Longrightarrow>
   list_all (every (\<lambda>ex sn. Q sn)) (click_at path items level ea sts)"
proof (induction path arbitrary: items level sts)
  case Nil
  then show ?case by simp
next
  case (Cons i path)
  show ?case
  proof (cases "i < length items \<and> i < length sts")
    case False
    then show ?thesis using Cons.prems by auto
  next
    case True
    then have si: "every (\<lambda>ex sn. Q sn) (sts ! i)"
      using Cons.prems by (simp add: list_all_length)
    obtain ex sn ks where s: "sts ! i = NodeState ex sn ks" by (cases "sts ! i")
    from si s have q: "Q sn" and ks: "list_all (every (\<lambda>ex sn. Q sn)) ks" by simp_all
    show ?thesis
    proof (cases "path = []")
      case True
      have "every (\<lambda>ex sn. Q sn) (click_row (items ! i) level ea (sts ! i))"
        using q ks s by (auto simp add: click_row_def split: option.splits handler.splits)
      then show ?thesis
        using True \<open>i < length items \<and> i < length sts\<close> Cons.prems
        by (simp add: list_all_update)
    next
      case False
      show ?thesis
      proof (cases "children (items ! i)")
        case None
        then show ?thesis using False Cons.prems by simp
      next
        case (Some cs)
        have "every (\<lambda>ex sn. Q sn) (NodeState ex sn (click_at path cs (level + 1) ea ks))"
          using q Cons.IH [OF ks] by simp
        then show ?thesis
          using Some False True s Cons.prems by (simp add: list_all_update)
      qed
    qed
  qed
qed

text \<open>
  C6, as stated: when the signal changes, every node with children, at every depth, has
  its expansion state set to the new value in the same render pass. On the example tree,
  collapsed and with the signal cleared, the pass in which the signal is set expands the
  root and nothing else: the nodes \<open>b\<close> and \<open>c\<close>, which have children, have no
  instance yet, and the next render shows \<open>b\<close> below the root with its chevron not
  rotated, that is collapsed. The tree is not the fully expanded one after this pass, nor
  after three passes.
\<close>

theorem expand_all_one_pass_counterexample:
  "list_all (every (\<lambda>ex sn. sn = Some False)) [collapsed]
   \<and> rerender example_items (click_expand_all \<lparr>expandAll = False, instances = [collapsed]\<rparr>) =
       \<lparr>expandAll = True, instances = [NodeState True (Some True) []]\<rparr>
   \<and> map (\<lambda>v. map_option (map chevron) (nested v))
         (TreeNodes example_items 0 True [NodeState True (Some True) []]) =
       [Some [Some False, None]]
   \<and> rerender example_items (click_expand_all \<lparr>expandAll = False, instances = [collapsed]\<rparr>) \<noteq>
       \<lparr>expandAll = True, instances = map full example_items\<rparr>
   \<and> (rerender example_items ^^ 3)
         (click_expand_all \<lparr>expandAll = False, instances = [collapsed]\<rparr>) \<noteq>
       \<lparr>expandAll = True, instances = map full example_items\<rparr>"
  by code_simp

text \<open>
  C6, amended: when the expand-all signal changes, the effect of the render pass in which
  it changes sets the expansion state of every node instance that is mounted in that pass
  to the new value, at every depth and whatever the user had toggled before. A node that
  is mounted by a later pass, because its parent has become expanded, is set by the pass
  that mounts it: with no further event the tree expands one level per pass, and after
  at most two passes more than there are levels below the top-level nodes, every node
  with children is mounted and expanded, at every depth. With the signal cleared, from
  the second pass on every top-level node is collapsed and nothing is mounted below it.
  The state this holds of is any in which every instance has run its effect with the
  signal's old value, as it has after a render pass with that value (\<open>pass_observed\<close>);
  toggling single nodes keeps it so. Toggling a single node never changes the expand-all
  signal.
\<close>

theorem expand_all_broadcast:
  assumes "list_all (every (\<lambda>ex sn. sn = Some (expandAll tv))) (instances tv)"
  shows "expandAll (click_expand_all tv) = (\<not> expandAll tv)
    \<and> list_all (every (\<lambda>ex sn. ex = (\<not> expandAll tv)))
        (instances (rerender items (click_expand_all tv)))
    \<and> (\<not> expandAll tv \<longrightarrow>
        (\<forall>n. heights items + 2 \<le> n \<longrightarrow>
           (rerender items ^^ n) (click_expand_all tv) =
             \<lparr>expandAll = True, instances = map full items\<rparr>))
    \<and> (expandAll tv \<longrightarrow>
        (\<forall>n. 2 \<le> n \<longrightarrow>
           (rerender items ^^ n) (click_expand_all tv) =
             \<lparr>expandAll = False, instances = replicate (length items) collapsed\<rparr>))
    \<and> expandAll (click_node items path tv) = expandAll tv
    \<and> list_all (every (\<lambda>ex sn. sn = Some (expandAll tv))) (instances (click_node items path tv))"
proof -
  let ?v = "\<not> expandAll tv"
  let ?tv = "click_expand_all tv"
  have due: "list_all (every (\<lambda>ex sn. sn \<noteq> Some ?v)) (instances tv)"
    using assms by (rule every_list_mono [rotated]) auto
  have g1: "expandAll ?tv = ?v" by (simp add: click_expand_all_def)
  have "instances (rerender items ?tv) = render_pass_list ?v items (instances tv)"
    by (simp add: rerender_def click_expand_all_def)
  moreover have "list_all (every (\<lambda>ex sn. ex = ?v \<and> sn = Some ?v))
      (render_pass_list ?v items (instances tv))"
    using due by (rule pass_sets(2))
  ultimately have g2: "list_all (every (\<lambda>ex sn. ex = ?v)) (instances (rerender items ?tv))"
    using every_list_mono [of "\<lambda>ex sn. ex = ?v \<and> sn = Some ?v" "\<lambda>ex sn. ex = ?v"] by simp
  have pw: "(rerender items ^^ n) ?tv =
      \<lparr>expandAll = ?v, instances = (render_pass_list ?v items ^^ n) (instances tv)\<rparr>" for n
    unfolding funpow_rerender by (simp add: click_expand_all_def)
  have g3: "\<not> expandAll tv \<longrightarrow>
        (\<forall>n. heights items + 2 \<le> n \<longrightarrow>
           (rerender items ^^ n) ?tv = \<lparr>expandAll = True, instances = map full items\<rparr>)"
  proof (intro impI allI)
    fix n
    assume v: "\<not> expandAll tv" and n: "heights items + 2 \<le> n"
    from due v have "list_all (every (\<lambda>ex sn. sn \<noteq> Some True)) (instances tv)" by simp
    from passes_reach_full_list [OF this n]
    show "(rerender items ^^ n) ?tv = \<lparr>expandAll = True, instances = map full items\<rparr>"
      unfolding pw using v by simp
  qed
  have g4: "expandAll tv \<longrightarrow>
        (\<forall>n. 2 \<le> n \<longrightarrow>
           (rerender items ^^ n) ?tv =
             \<lparr>expandAll = False, instances = replicate (length items) collapsed\<rparr>)"
  proof (intro impI allI)
    fix n :: nat
    assume v: "expandAll tv" and n: "2 \<le> n"
    from due v have "list_all (every (\<lambda>ex sn. sn \<noteq> Some False)) (instances tv)" by simp
    from passes_reach_collapsed_list [OF this n]
    show "(rerender items ^^ n) ?tv =
        \<lparr>expandAll = False, instances = replicate (length items) collapsed\<rparr>"
      unfolding pw using v by simp
  qed
  have g5: "expandAll (click_node items path tv) = expandAll tv"
    by (simp add: click_node_def)
  have g6: "list_all (every (\<lambda>ex sn. sn = Some (expandAll tv)))
      (instances (click_node items path tv))"
    using click_at_observed [of "\<lambda>sn. sn = Some (expandAll tv)" "instances tv"] assms
    by (simp add: click_node_def)
  from g1 g2 g3 g4 g5 g6 show ?thesis by blast
qed

text \<open>
  On the example tree, whose root the user has opened by hand while the signal was
  cleared: the pass in which the signal is set expands the three mounted instances;
  after five passes the whole tree is mounted and expanded, the node \<open>c\<close> at the third
  level included. Then the user collapses \<open>b\<close> by hand, which leaves the signal set, and
  clears the signal: two passes later the root is collapsed and nothing else is mounted.
\<close>

theorem expand_all_broadcast_witness:
  "rerender example_items
     (click_expand_all
        \<lparr>expandAll = False,
         instances = [NodeState True (Some False)
                        [NodeState False (Some False) [], NodeState False (Some False) []]]\<rparr>) =
     \<lparr>expandAll = True,
      instances = [NodeState True (Some True)
                     [NodeState True (Some True) [], NodeState True (Some True) []]]\<rparr>
   \<and> (rerender example_items ^^ 5)
       (click_expand_all
          \<lparr>expandAll = False,
           instances = [NodeState True (Some False)
                          [NodeState False (Some False) [], NodeState False (Some False) []]]\<rparr>) =
     \<lparr>expandAll = True, instances = map full example_items\<rparr>
   \<and> expandAll (click_node example_items [0, 0]
                  \<lparr>expandAll = True, instances = map full example_items\<rparr>) = True
   \<and> (rerender example_items ^^ 2)
       (click_expand_all
          (click_node example_items [0, 0]
             \<lparr>expandAll = True, instances = map full example_items\<rparr>)) =
     \<lparr>expandAll = False, instances = [collapsed]\<rparr>"
proof -
  let ?tv0 = "\<lparr>expandAll = False,
         instances = [NodeState True (Some False)
                        [NodeState False (Some False) [], NodeState False (Some False) []]]\<rparr>"
  let ?tv1 = "click_node example_items [0, 0]
      \<lparr>expandAll = True, instances = map full example_items\<rparr>"
  have h0: "list_all (every (\<lambda>ex sn. sn = Some (expandAll ?tv0))) (instances ?tv0)" by simp
  have n0: "heights example_items + 2 \<le> 5" by code_simp
  have a: "rerender example_items (click_expand_all ?tv0) =
     \<lparr>expandAll = True,
      instances = [NodeState True (Some True)
                     [NodeState True (Some True) [], NodeState True (Some True) []]]\<rparr>"
    by code_simp
  have b: "(rerender example_items ^^ 5) (click_expand_all ?tv0) =
     \<lparr>expandAll = True, instances = map full example_items\<rparr>"
    using expand_all_broadcast [OF h0, of example_items] n0 by simp
  have e1: "expandAll ?tv1 = True" by (simp add: click_node_def)
  have h1: "list_all (every (\<lambda>ex sn. sn = Some (expandAll ?tv1))) (instances ?tv1)"
    unfolding e1 by code_simp
  have l: "length example_items = 1" by (simp add: example_items_def)
  have c: "(rerender example_items ^^ 2) (click_expand_all ?tv1) =
     \<lparr>expandAll = False, instances = [collapsed]\<rparr>"
    using expand_all_broadcast [OF h1, of example_items] e1 l by simp
  from a b e1 c show ?thesis by blast
qed

text \<open>
  The passes one by one, from the collapsed example tree with the signal just set: each
  pass mounts the children of the nodes that the pass before has expanded.
\<close>

lemma passes_level_by_level:
  "render_pass_list True example_items [collapsed] = [NodeState True (Some True) []]"
  "(render_pass_list True example_items ^^ 2) [collapsed] =
     [NodeState True (Some True) [NodeState True (Some True) [], NodeState True (Some True) []]]"
  "(render_pass_list True example_items ^^ 3) [collapsed] =
     [NodeState True (Some True)
        [NodeState True (Some True) [NodeState True (Some True) []],
         NodeState True (Some True) []]]"
  "(render_pass_list True example_items ^^ 4) [collapsed] = map full example_items"
  "(render_pass_list True example_items ^^ 5) [collapsed] = map full example_items"
  by code_simp+

end
